theory Spec2Isabelle
  imports Complex_Main "HOL-Library.AList" "HOL-Library.Sublist"
begin

section \<open>Strings and chunk identifiers\<close>

text \<open>
  A Python \<open>str\<close> is a sequence of Unicode code points; it is modelled as a list of
  natural numbers (the code points), a \<open>bytes\<close> object as a list of byte values.
  \<open>ustr\<close> turns an ASCII literal into such a string.
\<close>

type_synonym pystr = "nat list"

type_synonym pybytes = "nat list"

definition ustr :: "string \<Rightarrow> pystr" where
  "ustr s = map of_char s"

text \<open>
  \<open>str(i)\<close> for a non-negative integer, as the f-string \<open>f"{relative_path}_{i}"\<close>
  formats the index of \<open>enumerate\<close>: decimal digits (code points 48 to 57), most
  significant first, no leading zero.
\<close>

fun str_nat :: "nat \<Rightarrow> pystr" where
  "str_nat n = (if n < 10 then [48 + n] else str_nat (n div 10) @ [48 + n mod 10])"

text \<open>\<open>chunk_id = f"{relative_path}_{i}"\<close> (scanner.py, line 211); 95 is the underscore.\<close>

definition make_chunk_id :: "pystr \<Rightarrow> nat \<Rightarrow> pystr" where
  "make_chunk_id relative_path i = relative_path @ [95] @ str_nat i"


section \<open>Errors\<close>

text \<open>
  Every exception the modelled code can meet. All of them are subclasses of
  \<open>Exception\<close>, so the \<open>except Exception\<close> handlers of the source catch each one.
\<close>

datatype error =
    UnicodeEncodeError
  | ReadError
  | HashError
  | PathError
  | IndexError
  | DuplicateIDError
  | SaveError


section \<open>UTF-8\<close>

definition CHUNK_SIZE :: nat where
  "CHUNK_SIZE = 1024"

definition OVERLAP_SIZE :: nat where
  "OVERLAP_SIZE = 256"

definition STEP_SIZE :: nat where
  "STEP_SIZE = CHUNK_SIZE - OVERLAP_SIZE"

text \<open>
  \<open>str.encode('utf-8')\<close> and \<open>bytes.decode('utf-8')\<close> are library functions; they are
  modelled after the UTF-8 encoding form: a code point that is a Unicode scalar value
  is encoded in one to four bytes, a lone surrogate makes \<open>encode\<close> raise, and
  \<open>decode\<close> (strict) accepts exactly the well-formed byte sequences (shortest form, no
  surrogates, at most \<open>0x10FFFF\<close>).
\<close>

definition is_scalar :: "nat \<Rightarrow> bool" where
  "is_scalar c \<longleftrightarrow> c < 0x110000 \<and> \<not> (0xD800 \<le> c \<and> c < 0xE000)"

definition encode_char :: "nat \<Rightarrow> pybytes" where
  "encode_char c =
    (if c < 0x80 then [c]
     else if c < 0x800 then [0xC0 + c div 64, 0x80 + c mod 64]
     else if c < 0x10000 then [0xE0 + c div 4096, 0x80 + c div 64 mod 64, 0x80 + c mod 64]
     else [0xF0 + c div 262144, 0x80 + c div 4096 mod 64, 0x80 + c div 64 mod 64,
           0x80 + c mod 64])"

definition utf8_encode :: "pystr \<Rightarrow> pybytes" where
  "utf8_encode s = concat (map encode_char s)"

definition str_encode :: "pystr \<Rightarrow> error + pybytes" where
  "str_encode s =
     (if list_all is_scalar s then Inr (utf8_encode s) else Inl UnicodeEncodeError)"

definition is_cont :: "nat \<Rightarrow> bool" where
  "is_cont b \<longleftrightarrow> 0x80 \<le> b \<and> b < 0xC0"

text \<open>\<open>None\<close> stands for \<open>UnicodeDecodeError\<close>.\<close>

fun utf8_decode :: "pybytes \<Rightarrow> pystr option" where
  "utf8_decode [] = Some []"
| "utf8_decode (b0 # bs) =
    (if b0 < 0x80 then map_option (Cons b0) (utf8_decode bs)
     else if 0xC2 \<le> b0 \<and> b0 < 0xE0 then
       (case bs of
          b1 # r \<Rightarrow>
            if is_cont b1
            then map_option (Cons ((b0 - 0xC0) * 64 + (b1 - 0x80))) (utf8_decode r)
            else None
        | _ \<Rightarrow> None)
     else if 0xE0 \<le> b0 \<and> b0 < 0xF0 then
       (case bs of
          b1 # b2 # r \<Rightarrow>
            (let c = (b0 - 0xE0) * 4096 + (b1 - 0x80) * 64 + (b2 - 0x80) in
             if is_cont b1 \<and> is_cont b2 \<and> 0x800 \<le> c \<and> \<not> (0xD800 \<le> c \<and> c < 0xE000)
             then map_option (Cons c) (utf8_decode r)
             else None)
        | _ \<Rightarrow> None)
     else if 0xF0 \<le> b0 \<and> b0 < 0xF5 then
       (case bs of
          b1 # b2 # b3 # r \<Rightarrow>
            (let c = (b0 - 0xF0) * 262144 + (b1 - 0x80) * 4096 + (b2 - 0x80) * 64
                      + (b3 - 0x80) in
             if is_cont b1 \<and> is_cont b2 \<and> is_cont b3 \<and> 0x10000 \<le> c \<and> c < 0x110000
             then map_option (Cons c) (utf8_decode r)
             else None)
        | _ \<Rightarrow> None)
     else None)"


section \<open>The chunker (scanner.py, \<open>chunk_content\<close>)\<close>

text \<open>\<open>xs[i:j]\<close> for \<open>0 \<le> i\<close> and \<open>0 \<le> j\<close>.\<close>

definition slice :: "'a list \<Rightarrow> nat \<Rightarrow> nat \<Rightarrow> 'a list" where
  "slice xs i j = take (j - i) (drop i xs)"

text \<open>A chunk is the tuple \<open>(chunk_text, start_pos, end_pos)\<close>.\<close>

type_synonym chunk = "pystr \<times> nat \<times> nat"

definition chunk_start :: "chunk \<Rightarrow> nat" where
  "chunk_start w = fst (snd w)"

definition chunk_end :: "chunk \<Rightarrow> nat" where
  "chunk_end w = snd (snd w)"

text \<open>
  The inner loop (lines 111 to 117): while \<open>end_pos > pos\<close>, try to decode
  \<open>content_bytes[pos:end_pos]\<close>; on \<open>UnicodeDecodeError\<close> take one byte off the end
  and try again. The result is the decoded text with the final \<open>end_pos\<close>, or \<open>None\<close>
  when \<open>end_pos\<close> has come down to \<open>pos\<close> (line 119 then appends nothing).
\<close>

function decode_window :: "pybytes \<Rightarrow> nat \<Rightarrow> nat \<Rightarrow> (pystr \<times> nat) option" where
  "decode_window content_bytes pos end_pos =
     (if end_pos > pos then
        (case utf8_decode (slice content_bytes pos end_pos) of
           Some chunk_text \<Rightarrow> Some (chunk_text, end_pos)
         | None \<Rightarrow> decode_window content_bytes pos (end_pos - 1))
      else None)"
  by pat_completeness auto
termination
  by (relation "measure (\<lambda>(bs, pos, end_pos). end_pos - pos)") auto

text \<open>
  The outer loop (lines 104 to 122), from offset \<open>pos\<close> on: the chunks it appends, in
  order.
\<close>

function chunk_windows :: "pybytes \<Rightarrow> nat \<Rightarrow> chunk list" where
  "chunk_windows content_bytes pos =
     (if pos < length content_bytes then
        (let end_pos = min (pos + CHUNK_SIZE) (length content_bytes) in
         (case decode_window content_bytes pos end_pos of
            Some (chunk_text, end_pos') \<Rightarrow> [(chunk_text, pos, end_pos')]
          | None \<Rightarrow> []))
        @ chunk_windows content_bytes (pos + STEP_SIZE)
      else [])"
  by pat_completeness auto
termination
  by (relation "measure (\<lambda>(bs, pos). length bs - pos)")
     (auto simp: STEP_SIZE_def CHUNK_SIZE_def OVERLAP_SIZE_def)

definition chunk_content :: "pystr \<Rightarrow> pystr \<Rightarrow> error + chunk list" where
  "chunk_content title content =
     (case str_encode content of
        Inl e \<Rightarrow> Inl e
      | Inr content_bytes \<Rightarrow> Inr ((title, 0, 0) # chunk_windows content_bytes 0))"

text \<open>
  The byte offsets of the encoded content at which a character begins, together with
  the length of the encoding: \<open>is_boundary content j\<close> says that \<open>j\<close> is one of them.
  \<open>step_offsets pos n\<close> are the values that \<open>pos\<close> takes in the loop of lines 104 to
  122 from \<open>pos\<close> on, for content of \<open>n\<close> bytes.
\<close>

fun is_boundary :: "pystr \<Rightarrow> nat \<Rightarrow> bool" where
  "is_boundary [] j = (j = 0)"
| "is_boundary (c # cs) j =
     (j = 0 \<or> (length (encode_char c) \<le> j \<and> is_boundary cs (j - length (encode_char c))))"

function step_offsets :: "nat \<Rightarrow> nat \<Rightarrow> nat list" where
  "step_offsets pos n = (if pos < n then pos # step_offsets (pos + STEP_SIZE) n else [])"
  by pat_completeness auto
termination
  by (relation "measure (\<lambda>(pos, n). n - pos)")
     (auto simp: STEP_SIZE_def CHUNK_SIZE_def OVERLAP_SIZE_def)

text \<open>
  An example content: 1023 letters \<open>a\<close>, one \<open>U+00E9\<close> (two bytes, 195 and 169, at the
  offsets 1023 and 1024) and 600 more letters; 1625 bytes.
\<close>

definition trimmed_content :: pystr where
  "trimmed_content = replicate 1023 97 @ [233] @ replicate 600 97"

definition trimmed_bytes :: pybytes where
  "trimmed_bytes = replicate 1023 97 @ [195, 169] @ replicate 600 97"


section \<open>The Vector Index and the Sync State Store\<close>

text \<open>
  The metadata dictionary stored with every chunk (scanner.py, lines 214 to 222) and a
  row of the ChromaDB collection: id, document text, metadata.
\<close>

record chunk_metadata =
  md_file_path :: pystr
  md_title :: pystr
  md_chunk_index :: nat
  md_start_pos :: nat
  md_end_pos :: nat
  md_is_title_chunk :: bool
  md_full_path :: pystr

record chunk_record =
  rec_id :: pystr
  rec_document :: pystr
  rec_metadata :: chunk_metadata

text \<open>The mutating calls the indexer issues to the collection, with their id batches.\<close>

datatype index_call = Delete "pystr list" | Add "pystr list"

text \<open>
  How writing the metadata file goes: it completes, \<open>open\<close> raises (the file is
  untouched), or a \<open>write\<close> raises after some writes went through.
\<close>

datatype save_fault = SaveOk | OpenFails | WriteFails nat

text \<open>
  The state of an \<open>ObsidianIndexer\<close>: the dictionary \<open>file_hashes\<close> (insertion
  ordered, as a Python \<open>dict\<close> is), the text of the metadata file on disk (\<open>None\<close>
  when there is no file), the rows of the collection, and the history of mutating calls
  made to the collection.
\<close>

record indexer =
  file_hashes :: "(pystr \<times> pystr) list"
  metadata_file :: "pystr option"
  collection :: "chunk_record list"
  index_calls :: "index_call list"

text \<open>
  The collection is an external collaborator. Each of its calls may raise; which ones
  do during one operation is an input of the model. A call that raises changes nothing.
\<close>

record faults =
  get_fails :: bool
  delete_fails :: bool
  add_fails :: bool
  save_fault :: save_fault

definition no_faults :: faults where
  "no_faults = \<lparr>get_fails = False, delete_fails = False, add_fails = False, save_fault = SaveOk\<rparr>"

text \<open>\<open>collection.get(where={"file_path": filepath})\<close>: the rows of that file.\<close>

definition collection_get :: "faults \<Rightarrow> pystr \<Rightarrow> chunk_record list \<Rightarrow> error + chunk_record list" where
  "collection_get flt filepath rows =
     (if get_fails flt then Inl IndexError
      else Inr (filter (\<lambda>r. md_file_path (rec_metadata r) = filepath) rows))"

text \<open>\<open>collection.delete(ids=ids)\<close>: the rows with these ids go.\<close>

definition collection_delete :: "faults \<Rightarrow> pystr list \<Rightarrow> indexer \<Rightarrow> error + indexer" where
  "collection_delete flt ids s =
     (if delete_fails flt then Inl IndexError
      else Inr (s\<lparr>collection := filter (\<lambda>r. rec_id r \<notin> set ids) (collection s),
                  index_calls := index_calls s @ [Delete ids]\<rparr>))"

text \<open>
  \<open>collection.add(ids, documents, metadatas)\<close>: a batch that repeats an id is refused;
  a row whose id is already stored is left as it is and the new one is dropped; the
  other rows are appended.
\<close>

definition collection_add :: "faults \<Rightarrow> chunk_record list \<Rightarrow> indexer \<Rightarrow> error + indexer" where
  "collection_add flt rows s =
     (if add_fails flt then Inl IndexError
      else if \<not> distinct (map rec_id rows) then Inl DuplicateIDError
      else Inr (s\<lparr>collection :=
                    collection s
                    @ filter (\<lambda>r. rec_id r \<notin> set (map rec_id (collection s))) rows,
                  index_calls := index_calls s @ [Add (map rec_id rows)]\<rparr>))"


subsection \<open>Writing the metadata file (\<open>save_metadata\<close>)\<close>

text \<open>
  \<open>json.dump(self.file_hashes, f, indent=2)\<close> is a library call. It is modelled by the
  pieces it writes to the file object one after the other for a dictionary of strings:
  the opening brace and the first indentation, then key, separator and value of each
  item (items separated by a comma and the indentation), the closing line break and
  brace; \<open>{}\<close> for the empty dictionary. Strings are written quoted and escaped in
  ASCII.
\<close>

definition hex_digit :: "nat \<Rightarrow> nat" where
  "hex_digit d = (if d < 10 then 48 + d else 87 + d)"

definition u_escape :: "nat \<Rightarrow> pystr" where
  "u_escape n =
     [92, 117, hex_digit (n div 4096 mod 16), hex_digit (n div 256 mod 16),
      hex_digit (n div 16 mod 16), hex_digit (n mod 16)]"

definition json_escape_char :: "nat \<Rightarrow> pystr" where
  "json_escape_char c =
     (if c = 34 then [92, 34]
      else if c = 92 then [92, 92]
      else if c = 10 then [92, 110]
      else if c = 13 then [92, 114]
      else if c = 9 then [92, 116]
      else if c = 12 then [92, 102]
      else if c = 8 then [92, 98]
      else if 32 \<le> c \<and> c < 127 then [c]
      else if c < 0x10000 then u_escape c
      else u_escape (0xD800 + (c - 0x10000) div 1024)
           @ u_escape (0xDC00 + (c - 0x10000) mod 1024))"

definition json_string :: "pystr \<Rightarrow> pystr" where
  "json_string s = [34] @ concat (map json_escape_char s) @ [34]"

fun json_items :: "bool \<Rightarrow> (pystr \<times> pystr) list \<Rightarrow> pystr list" where
  "json_items first [] = []"
| "json_items first ((key, val) # items) =
     (if first then [] else [ustr '','' @ [10] @ ustr ''  ''])
     @ [json_string key, ustr '': '', json_string val]
     @ json_items False items"

definition json_dump_chunks :: "(pystr \<times> pystr) list \<Rightarrow> pystr list" where
  "json_dump_chunks dct =
     (if dct = [] then [ustr ''{}'']
      else [ustr ''{'', [10] @ ustr ''  ''] @ json_items True dct @ [[10], ustr ''}''])"

definition json_dumps :: "(pystr \<times> pystr) list \<Rightarrow> pystr" where
  "json_dumps dct = concat (json_dump_chunks dct)"

text \<open>
  \<open>save_metadata\<close> (lines 160 to 163): \<open>open(self.metadata_file, 'w')\<close> truncates the
  file in place, then \<open>json.dump\<close> writes into the file object, and leaving the \<open>with\<close>
  block closes it. \<open>metadata_file_written s k\<close> is the text of the file once it has been
  opened, the first \<open>k\<close> pieces have been written and it has been closed: what a
  \<open>write\<close> that raises after \<open>k\<close> pieces leaves (the \<open>with\<close> statement closes the file
  on the way out), and for all the pieces what a save that completes leaves.
\<close>

definition metadata_file_written :: "indexer \<Rightarrow> nat \<Rightarrow> pystr" where
  "metadata_file_written s k = concat (take k (json_dump_chunks (file_hashes s)))"

text \<open>
  A process that stops between \<open>open\<close> and the end of the \<open>with\<close> block closes nothing:
  the writes go to the buffer of the file object, and the file on disk holds the bytes
  that have been flushed by then, a prefix of the text written so far. How many bytes
  that is, is decided by the buffering (none as long as the text is smaller than the
  buffer); it is an input of the model.
\<close>

definition metadata_file_at_stop :: "indexer \<Rightarrow> nat \<Rightarrow> nat \<Rightarrow> pystr" where
  "metadata_file_at_stop s k flushed = take flushed (metadata_file_written s k)"

text \<open>A line break directly followed by a closing brace occurs in the text.\<close>

fun closes :: "pystr \<Rightarrow> bool" where
  "closes (x # y # r) = ((x = 10 \<and> y = 125) \<or> closes (y # r))"
| "closes _ = False"

text \<open>
  The result is the new state, or the exception together with the state it leaves
  behind.
\<close>

definition save_metadata :: "faults \<Rightarrow> indexer \<Rightarrow> (error \<times> indexer) + indexer" where
  "save_metadata flt s =
     (case save_fault flt of
        OpenFails \<Rightarrow> Inl (SaveError, s)
      | WriteFails k \<Rightarrow> Inl (SaveError, s\<lparr>metadata_file := Some (metadata_file_written s k)\<rparr>)
      | SaveOk \<Rightarrow>
          Inr (s\<lparr>metadata_file :=
                   Some (metadata_file_written s (length (json_dump_chunks (file_hashes s))))\<rparr>))"


section \<open>The sync engine (scanner.py, \<open>ObsidianIndexer\<close>)\<close>

text \<open>
  What the file system answers about the path handed to \<open>index_file\<close>:
  \<open>filepath.suffix\<close>, \<open>filepath.stem\<close>, \<open>filepath.read_text(encoding='utf-8')\<close>,
  \<open>calculate_file_hash(filepath)\<close> (the MD5 digest, a library function),
  \<open>str(filepath.relative_to(self.vault_path))\<close> and \<open>str(filepath)\<close>. Reading, hashing
  and \<open>relative_to\<close> may raise.
\<close>

record file_view =
  fv_suffix :: pystr
  fv_stem :: pystr
  fv_read_text :: "error + pystr"
  fv_hash :: "error + pystr"
  fv_relative_path :: "error + pystr"
  fv_str :: pystr

text \<open>
  \<open>remove_file_chunks\<close> (lines 165 to 177). Its own \<open>try\<close>/\<open>except Exception\<close> logs an
  exception of \<open>get\<close> or \<open>delete\<close> and returns normally.
\<close>

definition remove_file_chunks :: "faults \<Rightarrow> pystr \<Rightarrow> indexer \<Rightarrow> indexer" where
  "remove_file_chunks flt filepath s =
     (case collection_get flt filepath (collection s) of
        Inl e \<Rightarrow> s
      | Inr results \<Rightarrow>
          if map rec_id results \<noteq> [] then
            (case collection_delete flt (map rec_id results) s of
               Inl e \<Rightarrow> s
             | Inr s' \<Rightarrow> s')
          else s)"

text \<open>The loop of lines 210 to 222: ids, documents and metadatas, one row per chunk.\<close>

definition build_rows :: "pystr \<Rightarrow> pystr \<Rightarrow> pystr \<Rightarrow> chunk list \<Rightarrow> chunk_record list" where
  "build_rows relative_path title full chunks =
     map (\<lambda>(i, (chunk_text, start_pos, end_pos)).
            \<lparr>rec_id = make_chunk_id relative_path i,
             rec_document = chunk_text,
             rec_metadata =
               \<lparr>md_file_path = relative_path, md_title = title, md_chunk_index = i,
                md_start_pos = start_pos, md_end_pos = end_pos,
                md_is_title_chunk = (i = 0), md_full_path = full\<rparr>\<rparr>)
         (enumerate 0 chunks)"

text \<open>
  \<open>index_file\<close> (lines 179 to 238). An exception anywhere in the \<open>try\<close> block is
  logged by the handler of line 237 and the method returns: the state is then the one
  reached when the exception was raised.
\<close>

definition index_file :: "file_view \<Rightarrow> faults \<Rightarrow> indexer \<Rightarrow> indexer" where
  "index_file fv flt s =
     (if fv_suffix fv \<notin> set [ustr ''.md'', ustr ''.markdown''] then s
      else
        case fv_read_text fv of
          Inl e \<Rightarrow> s
        | Inr content \<Rightarrow>
           (let title = fv_stem fv in
            case fv_hash fv of
              Inl e \<Rightarrow> s
            | Inr current_hash \<Rightarrow>
               (case fv_relative_path fv of
                  Inl e \<Rightarrow> s
                | Inr relative_path \<Rightarrow>
                   if map_of (file_hashes s) relative_path = Some current_hash then s
                   else
                    (let s1 = (if map_of (file_hashes s) relative_path \<noteq> None
                               then remove_file_chunks flt relative_path s else s) in
                     case chunk_content title content of
                       Inl e \<Rightarrow> s1
                     | Inr chunks \<Rightarrow>
                        (case collection_add flt
                                (build_rows relative_path title (fv_str fv) chunks) s1 of
                           Inl e \<Rightarrow> s1
                         | Inr s2 \<Rightarrow>
                            (case save_metadata flt
                                    (s2\<lparr>file_hashes :=
                                          AList.update relative_path current_hash
                                            (file_hashes s2)\<rparr>) of
                               Inl (e, s3) \<Rightarrow> s3
                             | Inr s3 \<Rightarrow> s3))))))"

text \<open>
  Every stored row carries the id that \<open>index_file\<close> gives to its file and index; the
  rows of the file \<open>filepath\<close>.
\<close>

definition ids_wellformed :: "chunk_record list \<Rightarrow> bool" where
  "ids_wellformed rows \<longleftrightarrow>
     list_all (\<lambda>r. rec_id r = make_chunk_id (md_file_path (rec_metadata r))
                                  (md_chunk_index (rec_metadata r))) rows"

definition rows_of :: "pystr \<Rightarrow> chunk_record list \<Rightarrow> chunk_record list" where
  "rows_of filepath rows = filter (\<lambda>r. md_file_path (rec_metadata r) = filepath) rows"


section \<open>Search (daz-obsidian-mcp.py, \<open>ObsidianSearchServer\<close>)\<close>

text \<open>
  One match of \<open>collection.query\<close>: the entries at one position of the parallel lists
  \<open>ids[0]\<close>, \<open>documents[0]\<close>, \<open>metadatas[0]\<close>, \<open>distances[0]\<close>. Distances and scores are
  Python floats; they are modelled as real numbers.
\<close>

record hit =
  hit_id :: pystr
  hit_document :: pystr
  hit_metadata :: chunk_metadata
  hit_distance :: real

text \<open>
  The collection as the search server reads it: the similarity query (the ranking is the
  embedding engine's) and the fetch of a file's rows; either may raise.
\<close>

record vector_index =
  vi_query :: "pystr \<Rightarrow> int \<Rightarrow> error + hit list"
  vi_get :: "pystr \<Rightarrow> error + chunk_record list"

record snippet =
  snip_chunk_id :: pystr
  snip_content :: pystr
  snip_metadata :: chunk_metadata
  snip_distance :: real

record article =
  art_file_path :: pystr
  art_title :: pystr
  art_full_path :: pystr
  art_content :: pystr
  art_relevance_score :: real

text \<open>\<open>try: ... except Exception as e: logger.error(...); return []\<close>.\<close>

definition except_return_empty :: "error + 'a list \<Rightarrow> error + 'a list" where
  "except_return_empty r = (case r of Inl e \<Rightarrow> Inr [] | Inr v \<Rightarrow> Inr v)"

text \<open>\<open>search_snippets\<close> (lines 51 to 83): the body of the \<open>try\<close>, then the method.\<close>

definition search_snippets_try :: "vector_index \<Rightarrow> pystr \<Rightarrow> int \<Rightarrow> error + snippet list" where
  "search_snippets_try ix query limit =
     (case vi_query ix query limit of
        Inl e \<Rightarrow> Inl e
      | Inr results \<Rightarrow>
          if results = [] then Inr []
          else Inr (map (\<lambda>h. \<lparr>snip_chunk_id = hit_id h, snip_content = hit_document h,
                               snip_metadata = hit_metadata h,
                               snip_distance = hit_distance h\<rparr>) results))"

definition search_snippets :: "vector_index \<Rightarrow> pystr \<Rightarrow> int \<Rightarrow> error + snippet list" where
  "search_snippets ix query limit = except_return_empty (search_snippets_try ix query limit)"

text \<open>
  Lines 103 to 110: the dictionary \<open>file_scores\<close>, filled in the order of the matches; a
  key already present keeps its place when its value is lowered.
\<close>

definition score_step :: "hit \<Rightarrow> (pystr \<times> real) list \<Rightarrow> (pystr \<times> real) list" where
  "score_step h file_scores =
     (let file_path = md_file_path (hit_metadata h); distance = hit_distance h in
      case map_of file_scores file_path of
        None \<Rightarrow> AList.update file_path distance file_scores
      | Some best \<Rightarrow>
          if distance < best then AList.update file_path distance file_scores
          else file_scores)"

definition collect_file_scores :: "hit list \<Rightarrow> (pystr \<times> real) list" where
  "collect_file_scores results = fold score_step results []"

text \<open>\<open>xs[:n]\<close> for an integer \<open>n\<close>: a negative \<open>n\<close> counts from the end.\<close>

definition slice_to :: "'a list \<Rightarrow> int \<Rightarrow> 'a list" where
  "slice_to xs n = (if 0 \<le> n then take (nat n) xs else take (length xs - nat (- n)) xs)"

text \<open>
  Lines 126 to 158 for one file with a non-empty row list: sort the rows by
  \<open>chunk_index\<close> (\<open>list.sort\<close> is stable, as \<open>sort_key\<close> is), drop the first, join the
  texts of the others, and take title and full path from the first.
\<close>

definition reconstruct :: "pystr \<Rightarrow> real \<Rightarrow> chunk_record list \<Rightarrow> article" where
  "reconstruct file_path best_distance file_chunks =
     (let chunks_data = sort_key (\<lambda>c. md_chunk_index (rec_metadata c)) file_chunks;
          content_parts = map rec_document (tl chunks_data);
          full_content = concat content_parts;
          first_chunk_metadata = rec_metadata (hd chunks_data)
      in \<lparr>art_file_path = file_path,
          art_title = md_title first_chunk_metadata,
          art_full_path = md_full_path first_chunk_metadata,
          art_content = full_content,
          art_relevance_score = 1 - best_distance\<rparr>)"

text \<open>The loop of lines 117 to 158 over \<open>sorted_files\<close>.\<close>

fun collect_articles :: "vector_index \<Rightarrow> (pystr \<times> real) list \<Rightarrow> error + article list" where
  "collect_articles ix [] = Inr []"
| "collect_articles ix ((file_path, best_distance) # sorted_files) =
     (case vi_get ix file_path of
        Inl e \<Rightarrow> Inl e
      | Inr file_chunks \<Rightarrow>
          if file_chunks = [] then collect_articles ix sorted_files
          else
            (case collect_articles ix sorted_files of
               Inl e \<Rightarrow> Inl e
             | Inr articles \<Rightarrow>
                 Inr (reconstruct file_path best_distance file_chunks # articles)))"

definition sorted_files :: "hit list \<Rightarrow> int \<Rightarrow> (pystr \<times> real) list" where
  "sorted_files chunk_results limit =
     slice_to (sort_key snd (collect_file_scores chunk_results)) limit"

text \<open>\<open>search_full\<close> (lines 85 to 164): the body of the \<open>try\<close>, then the method.\<close>

definition search_full_try :: "vector_index \<Rightarrow> pystr \<Rightarrow> int \<Rightarrow> error + article list" where
  "search_full_try ix query limit =
     (case vi_query ix query (limit * 3) of
        Inl e \<Rightarrow> Inl e
      | Inr chunk_results \<Rightarrow>
          if chunk_results = [] then Inr []
          else collect_articles ix (sorted_files chunk_results limit))"

definition search_full :: "vector_index \<Rightarrow> pystr \<Rightarrow> int \<Rightarrow> error + article list" where
  "search_full ix query limit = except_return_empty (search_full_try ix query limit)"


text \<open>
  The distances of the matches that belong to one file, and the rows that
  \<open>collection.get\<close> returns for a file (none when it raises).
\<close>

definition matched_distances :: "hit list \<Rightarrow> pystr \<Rightarrow> real list" where
  "matched_distances results file_path =
     map hit_distance (filter (\<lambda>h. md_file_path (hit_metadata h) = file_path) results)"

definition file_rows :: "vector_index \<Rightarrow> pystr \<Rightarrow> chunk_record list" where
  "file_rows ix file_path = (case vi_get ix file_path of Inl e \<Rightarrow> [] | Inr rows \<Rightarrow> rows)"

section \<open>Example inputs\<close>

text \<open>
  The note \<open>a.md\<close> with content \<open>x\<close> and hash \<open>h1\<close>, then with content \<open>y\<close> and
  hash \<open>h2\<close>; an indexer that has synced the first version; fault settings; an indexer
  whose metadata file holds two entries while \<open>file_hashes\<close> has a new fingerprint for
  the first.
\<close>

definition empty_indexer :: indexer where
  "empty_indexer = \<lparr>file_hashes = [], metadata_file = None, collection = [], index_calls = []\<rparr>"

definition view_v1 :: file_view where
  "view_v1 = \<lparr>fv_suffix = ustr ''.md'', fv_stem = ustr ''a'', fv_read_text = Inr (ustr ''x''),
     fv_hash = Inr (ustr ''h1''), fv_relative_path = Inr (ustr ''a.md''),
     fv_str = ustr ''/v/a.md''\<rparr>"

definition view_v2 :: file_view where
  "view_v2 = \<lparr>fv_suffix = ustr ''.md'', fv_stem = ustr ''a'', fv_read_text = Inr (ustr ''y''),
     fv_hash = Inr (ustr ''h2''), fv_relative_path = Inr (ustr ''a.md''),
     fv_str = ustr ''/v/a.md''\<rparr>"

definition delete_faults :: faults where
  "delete_faults = \<lparr>get_fails = False, delete_fails = True, add_fails = False, save_fault = SaveOk\<rparr>"

definition add_faults :: faults where
  "add_faults = \<lparr>get_fails = False, delete_fails = False, add_fails = True, save_fault = SaveOk\<rparr>"

definition synced_v1 :: indexer where
  "synced_v1 = index_file view_v1 no_faults empty_indexer"

definition rows_v1 :: "chunk_record list" where
  "rows_v1 = build_rows (ustr ''a.md'') (ustr ''a'') (ustr ''/v/a.md'')
     [(ustr ''a'', 0, 0), (ustr ''x'', 0, 1)]"

definition rows_v2 :: "chunk_record list" where
  "rows_v2 = build_rows (ustr ''a.md'') (ustr ''a'') (ustr ''/v/a.md'')
     [(ustr ''a'', 0, 0), (ustr ''y'', 0, 1)]"

definition two_notes :: indexer where
  "two_notes =
     \<lparr>file_hashes = [(ustr ''a.md'', ustr ''h2''), (ustr ''b.md'', ustr ''g1'')],
      metadata_file = Some (json_dumps [(ustr ''a.md'', ustr ''h1''), (ustr ''b.md'', ustr ''g1'')]),
      collection = [], index_calls = []\<rparr>"

definition write_faults :: faults where
  "write_faults = \<lparr>get_fails = False, delete_fails = False, add_fails = False,
     save_fault = WriteFails 3\<rparr>"

text \<open>
  An index with the notes \<open>a.md\<close> (two content chunks, fetched in reverse order) and
  \<open>b.md\<close>, and a query with three matches; the articles \<open>search_full\<close> builds from
  them; an index whose every call raises, and one whose fetch raises.
\<close>

definition hit_of :: "chunk_record \<Rightarrow> real \<Rightarrow> hit" where
  "hit_of r d = \<lparr>hit_id = rec_id r, hit_document = rec_document r,
     hit_metadata = rec_metadata r, hit_distance = d\<rparr>"

definition rows_a :: "chunk_record list" where
  "rows_a = build_rows (ustr ''a.md'') (ustr ''a'') (ustr ''/v/a.md'')
     [(ustr ''a'', 0, 0), (ustr ''hello '', 0, 6), (ustr ''lo world'', 3, 11)]"

definition rows_b :: "chunk_record list" where
  "rows_b = build_rows (ustr ''b.md'') (ustr ''b'') (ustr ''/v/b.md'')
     [(ustr ''b'', 0, 0), (ustr ''hello world'', 0, 11)]"

definition example_hits :: "hit list" where
  "example_hits = [hit_of (rows_a ! 1) (1/2), hit_of (rows_b ! 1) (1/4), hit_of (rows_a ! 2) (1/8)]"

definition example_index :: vector_index where
  "example_index =
     \<lparr>vi_query = (\<lambda>q n. if n \<le> 0 then Inl IndexError else Inr (take (nat n) example_hits)),
      vi_get = (\<lambda>fp. if fp = ustr ''a.md'' then Inr (rev rows_a)
                      else if fp = ustr ''b.md'' then Inr rows_b else Inr [])\<rparr>"

definition failing_index :: vector_index where
  "failing_index = \<lparr>vi_query = (\<lambda>q n. Inl IndexError), vi_get = (\<lambda>fp. Inl IndexError)\<rparr>"

definition article_a :: article where
  "article_a = \<lparr>art_file_path = ustr ''a.md'', art_title = ustr ''a'',
     art_full_path = ustr ''/v/a.md'', art_content = ustr ''hello lo world'',
     art_relevance_score = 7/8\<rparr>"

definition article_b :: article where
  "article_b = \<lparr>art_file_path = ustr ''b.md'', art_title = ustr ''b'',
     art_full_path = ustr ''/v/b.md'', art_content = ustr ''hello world'',
     art_relevance_score = 3/4\<rparr>"

definition get_failing_index :: vector_index where
  "get_failing_index = \<lparr>vi_query = vi_query example_index, vi_get = (\<lambda>fp. Inl IndexError)\<rparr>"

section \<open>Properties of chunk identifiers\<close>

declare str_nat.simps [simp del]

lemma str_nat_digits: "c \<in> set (str_nat n) \<Longrightarrow> 48 \<le> c \<and> c \<le> 57"
proof (induction n rule: str_nat.induct)
  case (1 n)
  show ?case
  proof (cases "n < 10")
    case True
    with "1.prems" show ?thesis by (simp add: str_nat.simps)
  next
    case False
    with "1.prems" have "c \<in> set (str_nat (n div 10)) \<or> c = 48 + n mod 10"
      by (subst (asm) str_nat.simps) auto
    with False "1.IH" show ?thesis by auto
  qed
qed

lemma str_nat_nonempty: "str_nat n \<noteq> []"
  by (subst str_nat.simps) simp

lemma str_nat_inj: "str_nat m = str_nat n \<Longrightarrow> m = n"
proof (induction m arbitrary: n rule: str_nat.induct)
  case (1 m)
  show ?case
  proof (cases "m < 10")
    case True
    note m = this
    show ?thesis
    proof (cases "n < 10")
      case True
      with m "1.prems" show ?thesis by (simp add: str_nat.simps)
    next
      case False
      have "str_nat n = str_nat (n div 10) @ [48 + n mod 10]"
        using False by (subst str_nat.simps) simp
      moreover have "str_nat m = [48 + m]" using m by (subst str_nat.simps) simp
      ultimately show ?thesis using "1.prems" str_nat_nonempty [of "n div 10"]
        by (simp add: Cons_eq_append_conv)
    qed
  next
    case False
    note m = this
    have em: "str_nat m = str_nat (m div 10) @ [48 + m mod 10]"
      using m by (subst str_nat.simps) simp
    show ?thesis
    proof (cases "n < 10")
      case True
      then have "str_nat n = [48 + n]" by (subst str_nat.simps) simp
      with em "1.prems" str_nat_nonempty [of "m div 10"] show ?thesis
        by (simp add: append_eq_Cons_conv)
    next
      case False
      have en: "str_nat n = str_nat (n div 10) @ [48 + n mod 10]"
        using False by (subst str_nat.simps) simp
      from em en "1.prems" have "str_nat (m div 10) = str_nat (n div 10)"
        and md: "m mod 10 = n mod 10"
        by simp_all
      with "1.IH" [OF m] have "m div 10 = n div 10" by simp
      with md show ?thesis
        by (metis div_mult_mod_eq)
    qed
  qed
qed

lemma split_at_last_sep:
  assumes "xs @ a # ys = xs' @ a # ys'" and "a \<notin> set ys" and "a \<notin> set ys'"
  shows "xs = xs' \<and> ys = ys'"
  using assms
proof (induction xs arbitrary: xs')
  case Nil
  then show ?case by (cases xs') auto
next
  case (Cons x xs)
  then show ?case by (cases xs') auto
qed

lemma make_chunk_id_eq_iff:
  "make_chunk_id d i = make_chunk_id d' i' \<longleftrightarrow> d = d' \<and> i = i'"
  using split_at_last_sep [of d 95 "str_nat i" d' "str_nat i'"]
    str_nat_digits [of 95 i] str_nat_digits [of 95 i'] str_nat_inj [of i i']
  by (auto simp: make_chunk_id_def)

text \<open>
  C10: chunk id construction is injective. Two pairs of a document id and a natural
  chunk index are formatted to the same id \<open>f"{document_id}_{chunk_index}"\<close> exactly
  when the document ids are equal and the indices are equal; the reason is that the
  decimal rendering of the index holds no underscore, so the last underscore of the id
  is the separator.
\<close>

theorem chunk_id_injective:
  "(make_chunk_id document_id chunk_index = make_chunk_id document_id' chunk_index'
      \<longleftrightarrow> document_id = document_id' \<and> chunk_index = chunk_index')
   \<and> 95 \<notin> set (str_nat chunk_index)"
  using make_chunk_id_eq_iff [of document_id chunk_index document_id' chunk_index']
    str_nat_digits [of 95 chunk_index]
  by auto

theorem chunk_id_injective_witness:
  "make_chunk_id (ustr ''a_1'') 0 = ustr ''a_1_0''
   \<and> make_chunk_id (ustr ''a'') 10 = ustr ''a_10''
   \<and> make_chunk_id (ustr ''a_1'') 0 \<noteq> make_chunk_id (ustr ''a'') 10"
  using chunk_id_injective [of "ustr ''a_1''" 0 "ustr ''a''" 10]
  by (simp add: make_chunk_id_def ustr_def str_nat.simps)


section \<open>Properties of the chunker\<close>

declare decode_window.simps [simp del]

declare chunk_windows.simps [simp del]

lemma utf8_decode_ascii_append:
  "\<forall>b\<in>set as. b < 128 \<Longrightarrow> utf8_decode (as @ bs) = map_option ((@) as) (utf8_decode bs)"
  by (induction as) (auto simp: option.map_comp comp_def option.map_ident cong: option.map_cong)

lemma div_mod_64_2: "(c::nat) div 4096 * 4096 + c div 64 mod 64 * 64 + c mod 64 = c"
proof -
  have a: "c = c div 64 * 64 + c mod 64" by simp
  have b: "c div 64 = c div 64 div 64 * 64 + c div 64 mod 64" by simp
  have d: "c div 64 div 64 = c div 4096" by (simp add: div_mult2_eq[symmetric])
  from a b d show ?thesis by linarith
qed

lemma div_mod_64_3:
  "(c::nat) div 262144 * 262144 + c div 4096 mod 64 * 4096 + c div 64 mod 64 * 64 + c mod 64 = c"
proof -
  have a: "c div 4096 = c div 4096 div 64 * 64 + c div 4096 mod 64" by simp
  have d: "c div 4096 div 64 = c div 262144" by (simp add: div_mult2_eq[symmetric])
  from a d div_mod_64_2 [of c] show ?thesis by linarith
qed

lemma decode2:
  assumes "194 \<le> b0" "b0 < 224" "is_cont b1"
  shows "utf8_decode (b0 # b1 # bs) = map_option (Cons ((b0 - 192) * 64 + (b1 - 128))) (utf8_decode bs)"
  using assms by simp

lemma decode3:
  assumes "224 \<le> b0" "b0 < 240" "is_cont b1" "is_cont b2"
    "2048 \<le> (b0 - 224) * 4096 + (b1 - 128) * 64 + (b2 - 128)"
    "\<not> (55296 \<le> (b0 - 224) * 4096 + (b1 - 128) * 64 + (b2 - 128)
        \<and> (b0 - 224) * 4096 + (b1 - 128) * 64 + (b2 - 128) < 57344)"
  shows "utf8_decode (b0 # b1 # b2 # bs)
    = map_option (Cons ((b0 - 224) * 4096 + (b1 - 128) * 64 + (b2 - 128))) (utf8_decode bs)"
  using assms by (simp add: Let_def)

lemma decode4:
  assumes "240 \<le> b0" "b0 < 245" "is_cont b1" "is_cont b2" "is_cont b3"
    "65536 \<le> (b0 - 240) * 262144 + (b1 - 128) * 4096 + (b2 - 128) * 64 + (b3 - 128)"
    "(b0 - 240) * 262144 + (b1 - 128) * 4096 + (b2 - 128) * 64 + (b3 - 128) < 1114112"
  shows "utf8_decode (b0 # b1 # b2 # b3 # bs)
    = map_option (Cons ((b0 - 240) * 262144 + (b1 - 128) * 4096 + (b2 - 128) * 64 + (b3 - 128)))
        (utf8_decode bs)"
  using assms by (simp add: Let_def)


lemma utf8_decode_encode_char:
  assumes "is_scalar c"
  shows "utf8_decode (encode_char c @ bs) = map_option (Cons c) (utf8_decode bs)"
proof -
  consider "c < 128" | "128 \<le> c" "c < 2048" | "2048 \<le> c" "c < 65536"
    | "65536 \<le> c" "c < 1114112"
    using assms unfolding is_scalar_def by (meson not_le_imp_less)
  then show ?thesis
  proof cases
    case 1
    then show ?thesis by (simp add: encode_char_def)
  next
    case 2
    have e: "encode_char c = [192 + c div 64, 128 + c mod 64]"
      using 2 by (simp add: encode_char_def)
    have "194 \<le> 192 + c div 64" "192 + c div 64 < 224" "is_cont (128 + c mod 64)"
      using 2 by (simp_all add: is_cont_def)
    from decode2 [OF this, of bs] show ?thesis
      unfolding e by simp
  next
    case 3
    have e: "encode_char c = [224 + c div 4096, 128 + c div 64 mod 64, 128 + c mod 64]"
      using 3 by (simp add: encode_char_def)
    have v: "(224 + c div 4096 - 224) * 4096 + (128 + c div 64 mod 64 - 128) * 64
        + (128 + c mod 64 - 128) = c"
      using div_mod_64_2 [of c] by simp
    have "224 \<le> 224 + c div 4096" "224 + c div 4096 < 240"
      "is_cont (128 + c div 64 mod 64)" "is_cont (128 + c mod 64)"
      using 3 by (simp_all add: is_cont_def)
    from decode3 [OF this, of bs, unfolded v] 3 assms show ?thesis
      unfolding e is_scalar_def by simp
  next
    case 4
    have e: "encode_char c = [240 + c div 262144, 128 + c div 4096 mod 64,
        128 + c div 64 mod 64, 128 + c mod 64]"
      using 4 by (simp add: encode_char_def)
    have v: "(240 + c div 262144 - 240) * 262144 + (128 + c div 4096 mod 64 - 128) * 4096
        + (128 + c div 64 mod 64 - 128) * 64 + (128 + c mod 64 - 128) = c"
      using div_mod_64_3 [of c] by simp
    have "240 \<le> 240 + c div 262144" "240 + c div 262144 < 245"
      "is_cont (128 + c div 4096 mod 64)" "is_cont (128 + c div 64 mod 64)"
      "is_cont (128 + c mod 64)"
      using 4 by (simp_all add: is_cont_def)
    from decode4 [OF this, of bs, unfolded v] 4 show ?thesis
      unfolding e by simp
  qed
qed

lemma utf8_decode_encode_append:
  "list_all is_scalar s \<Longrightarrow>
     utf8_decode (utf8_encode s @ bs) = map_option ((@) s) (utf8_decode bs)"
proof (induction s)
  case Nil
  then show ?case by (simp add: utf8_encode_def option.map_ident)
next
  case (Cons c s)
  then have "utf8_decode (utf8_encode (c # s) @ bs)
      = map_option (Cons c) (map_option ((@) s) (utf8_decode bs))"
    by (simp add: utf8_encode_def utf8_decode_encode_char del: utf8_decode.simps)
  then show ?case by (cases "utf8_decode bs") simp_all
qed

lemma utf8_decode_encode: "list_all is_scalar s \<Longrightarrow> utf8_decode (utf8_encode s) = Some s"
  using utf8_decode_encode_append [of s "[]"] by simp


lemma decode_window_Some:
  "decode_window bs pos e = Some (t, e') \<Longrightarrow>
     pos < e' \<and> e' \<le> e \<and> utf8_decode (slice bs pos e') = Some t"
proof (induction bs pos e rule: decode_window.induct)
  case (1 bs pos e)
  show ?case
  proof (cases "e > pos")
    case True
    show ?thesis
    proof (cases "utf8_decode (slice bs pos e)")
      case None
      with True "1.prems" have "decode_window bs pos (e - 1) = Some (t, e')"
        by (subst (asm) decode_window.simps) simp
      from "1.IH" [OF True None this] show ?thesis by auto
    next
      case (Some u)
      with True "1.prems" show ?thesis
        by (subst (asm) decode_window.simps) auto
    qed
  next
    case False
    with "1.prems" show ?thesis by (subst (asm) decode_window.simps) simp
  qed
qed

lemma decode_window_hit:
  "pos < e \<Longrightarrow> utf8_decode (slice bs pos e) = Some t \<Longrightarrow> decode_window bs pos e = Some (t, e)"
  by (subst decode_window.simps) simp

lemma decode_window_miss:
  "pos < e \<Longrightarrow> utf8_decode (slice bs pos e) = None \<Longrightarrow>
     decode_window bs pos e = decode_window bs pos (e - 1)"
  by (subst decode_window.simps) simp

lemma chunk_windows_past_end: "length bs \<le> pos \<Longrightarrow> chunk_windows bs pos = []"
  by (subst chunk_windows.simps) simp

lemma chunk_windows_step:
  "pos < length bs \<Longrightarrow>
     chunk_windows bs pos =
       (case decode_window bs pos (min (pos + CHUNK_SIZE) (length bs)) of
          Some (chunk_text, end_pos') \<Rightarrow> [(chunk_text, pos, end_pos')]
        | None \<Rightarrow> [])
       @ chunk_windows bs (pos + STEP_SIZE)"
  by (subst chunk_windows.simps) (simp add: Let_def)

lemma chunk_windows_member:
  "w \<in> set (chunk_windows bs pos) \<Longrightarrow>
     pos \<le> chunk_start w \<and> chunk_start w < chunk_end w
     \<and> chunk_end w \<le> chunk_start w + CHUNK_SIZE \<and> chunk_end w \<le> length bs
     \<and> STEP_SIZE dvd (chunk_start w - pos)
     \<and> utf8_decode (slice bs (chunk_start w) (chunk_end w)) = Some (fst w)"
proof (induction bs pos rule: chunk_windows.induct)
  case (1 bs pos)
  show ?case
  proof (cases "pos < length bs")
    case False
    with "1.prems" show ?thesis by (simp add: chunk_windows_past_end)
  next
    case True
    from "1.prems" chunk_windows_step [OF True]
    consider t e where "decode_window bs pos (min (pos + CHUNK_SIZE) (length bs)) = Some (t, e)"
        "w = (t, pos, e)"
      | "w \<in> set (chunk_windows bs (pos + STEP_SIZE))"
      by (auto split: option.splits)
    then show ?thesis
    proof cases
      case 1
      from decode_window_Some [OF 1(1)] 1(2) show ?thesis
        by (simp add: chunk_start_def chunk_end_def)
    next
      case 2
      from "1.IH" [OF True 2]
      have h: "pos + STEP_SIZE \<le> chunk_start w" "chunk_start w < chunk_end w"
        "chunk_end w \<le> chunk_start w + CHUNK_SIZE" "chunk_end w \<le> length bs"
        "STEP_SIZE dvd (chunk_start w - (pos + STEP_SIZE))"
        "utf8_decode (slice bs (chunk_start w) (chunk_end w)) = Some (fst w)"
        by simp_all
      from h(1) have "chunk_start w - pos = (chunk_start w - (pos + STEP_SIZE)) + STEP_SIZE"
        by simp
      with h(5) have "STEP_SIZE dvd (chunk_start w - pos)" by simp
      with h show ?thesis by simp
    qed
  qed
qed

lemma chunk_windows_sorted:
  "sorted_wrt (\<lambda>w w'. chunk_start w + STEP_SIZE \<le> chunk_start w') (chunk_windows bs pos)"
proof (induction bs pos rule: chunk_windows.induct)
  case (1 bs pos)
  show ?case
  proof (cases "pos < length bs")
    case False
    then show ?thesis by (simp add: chunk_windows_past_end)
  next
    case True
    have rest: "\<forall>w'\<in>set (chunk_windows bs (pos + STEP_SIZE)). pos + STEP_SIZE \<le> chunk_start w'"
      using chunk_windows_member by blast
    show ?thesis
      using "1.IH" [OF True] rest
      by (subst chunk_windows_step [OF True])
        (auto simp: sorted_wrt_append chunk_start_def split: option.splits)
  qed
qed


lemma encode_char_nonempty: "encode_char c \<noteq> []"
  by (simp add: encode_char_def)

lemma utf8_encode_nonempty: "content \<noteq> [] \<Longrightarrow> utf8_encode content \<noteq> []"
  by (cases content) (simp_all add: utf8_encode_def encode_char_nonempty)

lemma utf8_encode_ascii: "\<forall>c\<in>set s. c < 128 \<Longrightarrow> utf8_encode s = s"
  by (induction s) (simp_all add: utf8_encode_def encode_char_def)

lemma utf8_encode_append: "utf8_encode (s @ t) = utf8_encode s @ utf8_encode t"
  by (simp add: utf8_encode_def)

lemma utf8_decode_ascii: "\<forall>b\<in>set bs. b < 128 \<Longrightarrow> utf8_decode bs = Some bs"
  using utf8_decode_ascii_append [of bs "[]"] by simp

lemma slice_all: "slice xs 0 (length xs) = xs"
  by (simp add: slice_def)

lemma chunk_content_first_window:
  assumes "list_all is_scalar content" and "content \<noteq> []"
    and "length (utf8_encode content) \<le> CHUNK_SIZE"
  shows "chunk_content title content =
     Inr ((title, 0, 0) # (content, 0, length (utf8_encode content))
          # chunk_windows (utf8_encode content) STEP_SIZE)"
proof -
  let ?bs = "utf8_encode content"
  have pos: "0 < length ?bs" using assms(2) utf8_encode_nonempty by simp
  have m: "min (0 + CHUNK_SIZE) (length ?bs) = length ?bs" using assms(3) by simp
  have "decode_window ?bs 0 (length ?bs) = Some (content, length ?bs)"
    using pos assms(1) by (intro decode_window_hit) (simp_all add: slice_all utf8_decode_encode)
  with chunk_windows_step [OF pos] m
  have "chunk_windows ?bs 0 = (content, 0, length ?bs) # chunk_windows ?bs STEP_SIZE"
    by simp
  with assms(1) show ?thesis by (simp add: chunk_content_def str_encode_def)
qed

lemma chunk_windows_last_step:
  assumes "length bs \<le> pos + STEP_SIZE"
  shows "length (chunk_windows bs pos) \<le> 1 \<and> (\<forall>w\<in>set (chunk_windows bs pos). chunk_start w = pos)"
proof (cases "pos < length bs")
  case False
  then show ?thesis by (simp add: chunk_windows_past_end)
next
  case True
  from assms have "chunk_windows bs (pos + STEP_SIZE) = []"
    by (simp add: chunk_windows_past_end)
  with chunk_windows_step [OF True] show ?thesis
    by (auto simp: chunk_start_def split: option.splits)
qed

lemma chunk_content_one_window:
  assumes "list_all is_scalar content" and "content \<noteq> []"
    and "length (utf8_encode content) \<le> STEP_SIZE"
  shows "chunk_content title content =
     Inr [(title, 0, 0), (content, 0, length (utf8_encode content))]"
proof -
  have "length (utf8_encode content) \<le> CHUNK_SIZE"
    using assms(3) by (simp add: CHUNK_SIZE_def STEP_SIZE_def OVERLAP_SIZE_def)
  from chunk_content_first_window [OF assms(1,2) this, of title] assms(3)
  show ?thesis by (simp add: chunk_windows_past_end)
qed

lemma chunk_content_empty: "chunk_content title [] = Inr [(title, 0, 0)]"
  by (simp add: chunk_content_def str_encode_def utf8_encode_def chunk_windows_past_end)

text \<open>
  C4, as amended. For every title and every non-empty content (of Unicode scalar values,
  as \<open>read_text\<close> yields) whose UTF-8 encoding has at most \<open>CHUNK_SIZE = 1024\<close> bytes,
  \<open>chunk_content\<close> returns the title chunk, then one window that covers the whole
  content, then whatever the loop emits from offset \<open>STEP_SIZE = 768\<close> on: at most one
  more window, starting at 768. When the encoding has at most 768 bytes nothing follows,
  and the result has exactly 2 elements.
\<close>

theorem chunk_content_short:
  assumes "list_all is_scalar content" and "content \<noteq> []"
    and "length (utf8_encode content) \<le> CHUNK_SIZE"
  shows "chunk_content title content =
       Inr ((title, 0, 0) # (content, 0, length (utf8_encode content))
            # chunk_windows (utf8_encode content) STEP_SIZE)
     \<and> length (chunk_windows (utf8_encode content) STEP_SIZE) \<le> 1
     \<and> (\<forall>w\<in>set (chunk_windows (utf8_encode content) STEP_SIZE). chunk_start w = STEP_SIZE)
     \<and> (length (utf8_encode content) \<le> STEP_SIZE
          \<longrightarrow> chunk_windows (utf8_encode content) STEP_SIZE = [])"
proof -
  have "length (utf8_encode content) \<le> STEP_SIZE + STEP_SIZE"
    using assms(3) by (simp add: CHUNK_SIZE_def STEP_SIZE_def OVERLAP_SIZE_def)
  from chunk_windows_last_step [OF this] chunk_content_first_window [OF assms, of title]
  show ?thesis by (simp add: chunk_windows_past_end)
qed

theorem chunk_content_short_witness:
  "chunk_content (ustr ''a'') [104, 233, 108, 108, 111] =
     Inr [(ustr ''a'', 0, 0), ([104, 233, 108, 108, 111], 0, 6)]"
  using chunk_content_short [of "[104, 233, 108, 108, 111]" "ustr ''a''"]
  by (simp add: utf8_encode_def encode_char_def is_scalar_def CHUNK_SIZE_def STEP_SIZE_def
      OVERLAP_SIZE_def)

lemma decode_window_ascii:
  assumes "\<forall>b\<in>set bs. b < 128" and "pos < e"
  shows "decode_window bs pos e = Some (slice bs pos e, e)"
proof -
  have "\<forall>b\<in>set (slice bs pos e). b < 128"
    using assms(1) by (auto simp: slice_def dest!: in_set_takeD in_set_dropD)
  then show ?thesis using assms(2) by (intro decode_window_hit) (simp_all add: utf8_decode_ascii)
qed

lemma chunk_windows_ascii_step:
  assumes "\<forall>b\<in>set bs. b < 128" and "pos < length bs"
  shows "chunk_windows bs pos =
     (slice bs pos (min (pos + CHUNK_SIZE) (length bs)), pos, min (pos + CHUNK_SIZE) (length bs))
       # chunk_windows bs (pos + STEP_SIZE)"
proof -
  have "pos < min (pos + CHUNK_SIZE) (length bs)"
    using assms(2) by (simp add: CHUNK_SIZE_def)
  from decode_window_ascii [OF assms(1) this] chunk_windows_step [OF assms(2)]
  show ?thesis by simp
qed

lemma chunk_content_ascii:
  assumes "\<forall>b\<in>set content. b < 128"
  shows "chunk_content title content = Inr ((title, 0, 0) # chunk_windows content 0)"
proof -
  have "list_all is_scalar content"
    using assms by (auto simp: list_all_iff is_scalar_def)
  with utf8_encode_ascii [OF assms] show ?thesis
    by (simp add: chunk_content_def str_encode_def)
qed

lemma chunk_content_769:
  "chunk_content (ustr ''a'') (replicate 769 97) =
     Inr [(ustr ''a'', 0, 0), (replicate 769 97, 0, 769), ([97], 768, 769)]"
proof -
  have a: "\<forall>b\<in>set (replicate 769 (97::nat)). b < 128" by simp
  have w0: "chunk_windows (replicate 769 97) 0 =
      (replicate 769 97, 0, 769) # chunk_windows (replicate 769 97) 768"
    by (subst chunk_windows_ascii_step [OF a])
      (simp_all add: CHUNK_SIZE_def STEP_SIZE_def OVERLAP_SIZE_def slice_def)
  have w1: "chunk_windows (replicate 769 97) 768 =
      ([97], 768, 769) # chunk_windows (replicate 769 97) 1536"
    by (subst chunk_windows_ascii_step [OF a])
      (simp_all add: CHUNK_SIZE_def STEP_SIZE_def OVERLAP_SIZE_def slice_def)
  have w2: "chunk_windows (replicate 769 97) 1536 = []"
    by (simp add: chunk_windows_past_end)
  show ?thesis
    by (simp add: chunk_content_ascii [OF a] w0 w1 w2)
qed


text \<open>
  The claim C4 as stated fails between 769 and 1024 bytes: 769 letters \<open>a\<close> are
  769 bytes, at most the chunk size, and \<open>chunk_content\<close> returns 3 elements, the last
  one a second window over the byte at offset 768.
\<close>

theorem chunk_content_short_counterexample:
  "length (utf8_encode (replicate 769 97)) = 769
   \<and> chunk_content (ustr ''a'') (replicate 769 97) =
       Inr [(ustr ''a'', 0, 0), (replicate 769 97, 0, 769), ([97], 768, 769)]"
  using chunk_content_769 by (simp add: utf8_encode_ascii)

lemma chunk_content_2000:
  "chunk_content (ustr ''a'') (replicate 2000 97) =
     Inr [(ustr ''a'', 0, 0), (replicate 1024 97, 0, 1024), (replicate 1024 97, 768, 1792),
          (replicate 464 97, 1536, 2000)]"
proof -
  have a: "\<forall>b\<in>set (replicate 2000 (97::nat)). b < 128" by simp
  have w0: "chunk_windows (replicate 2000 97) 0 =
      (replicate 1024 97, 0, 1024) # chunk_windows (replicate 2000 97) 768"
    by (subst chunk_windows_ascii_step [OF a])
      (simp_all add: CHUNK_SIZE_def STEP_SIZE_def OVERLAP_SIZE_def slice_def)
  have w1: "chunk_windows (replicate 2000 97) 768 =
      (replicate 1024 97, 768, 1792) # chunk_windows (replicate 2000 97) 1536"
    by (subst chunk_windows_ascii_step [OF a])
      (simp_all add: CHUNK_SIZE_def STEP_SIZE_def OVERLAP_SIZE_def slice_def)
  have w2: "chunk_windows (replicate 2000 97) 1536 =
      (replicate 464 97, 1536, 2000) # chunk_windows (replicate 2000 97) 2304"
    by (subst chunk_windows_ascii_step [OF a])
      (simp_all add: CHUNK_SIZE_def STEP_SIZE_def OVERLAP_SIZE_def slice_def)
  have w3: "chunk_windows (replicate 2000 97) 2304 = []"
    by (simp add: chunk_windows_past_end)
  show ?thesis
    by (simp add: chunk_content_ascii [OF a] w0 w1 w2 w3)
qed

lemma utf8_encode_trimmed: "utf8_encode trimmed_content = trimmed_bytes"
  by (simp add: trimmed_content_def trimmed_bytes_def utf8_encode_append utf8_encode_ascii)
    (simp add: utf8_encode_def encode_char_def)

lemma chunk_content_trimmed:
  "chunk_content (ustr ''a'') trimmed_content =
     Inr [(ustr ''a'', 0, 0), (replicate 1023 97, 0, 1023),
          (replicate 255 97 @ [233] @ replicate 600 97, 768, 1625),
          (replicate 89 97, 1536, 1625)]"
proof -
  let ?bs = trimmed_bytes
  have len: "length ?bs = 1625" by (simp add: trimmed_bytes_def)
  have s0: "slice ?bs 0 1024 = replicate 1023 97 @ [195]"
    by (simp add: slice_def trimmed_bytes_def)
  have "utf8_decode [195] = None" by simp
  then have d0: "utf8_decode (slice ?bs 0 1024) = None"
    unfolding s0 by (subst utf8_decode_ascii_append) simp_all
  have s0': "slice ?bs 0 1023 = replicate 1023 97"
    by (simp add: slice_def trimmed_bytes_def)
  have d0': "utf8_decode (slice ?bs 0 1023) = Some (replicate 1023 97)"
    unfolding s0' by (rule utf8_decode_ascii) simp
  have dw0: "decode_window ?bs 0 1024 = Some (replicate 1023 97, 1023)"
    using decode_window_miss [of 0 1024 ?bs, OF _ d0] decode_window_hit [of 0 1023 ?bs, OF _ d0']
    by simp
  have w0: "chunk_windows ?bs 0 = (replicate 1023 97, 0, 1023) # chunk_windows ?bs 768"
    by (subst chunk_windows_step)
      (simp_all add: CHUNK_SIZE_def STEP_SIZE_def OVERLAP_SIZE_def dw0 len)
  have s1: "slice ?bs 768 1625 = replicate 255 97 @ [195, 169] @ replicate 600 97"
    by (simp add: slice_def trimmed_bytes_def)
  have "utf8_decode ([195, 169] @ replicate 600 97) = Some ([233] @ replicate 600 97)"
    using utf8_decode_ascii [of "replicate 600 97"] by (simp add: is_cont_def)
  then have d1: "utf8_decode (slice ?bs 768 1625)
      = Some (replicate 255 97 @ [233] @ replicate 600 97)"
    unfolding s1 by (subst utf8_decode_ascii_append) simp_all
  have dw1: "decode_window ?bs 768 1625
      = Some (replicate 255 97 @ [233] @ replicate 600 97, 1625)"
    by (rule decode_window_hit [OF _ d1]) simp
  have w1: "chunk_windows ?bs 768 =
      (replicate 255 97 @ [233] @ replicate 600 97, 768, 1625) # chunk_windows ?bs 1536"
    by (subst chunk_windows_step)
      (simp add: len, simp add: CHUNK_SIZE_def STEP_SIZE_def OVERLAP_SIZE_def dw1 len)
  have s2: "slice ?bs 1536 1625 = replicate 89 97"
    by (simp add: slice_def trimmed_bytes_def)
  have d2: "utf8_decode (slice ?bs 1536 1625) = Some (replicate 89 97)"
    unfolding s2 by (rule utf8_decode_ascii) simp
  have dw2: "decode_window ?bs 1536 1625 = Some (replicate 89 97, 1625)"
    by (rule decode_window_hit [OF _ d2]) simp
  have w2: "chunk_windows ?bs 1536 = (replicate 89 97, 1536, 1625) # chunk_windows ?bs 2304"
    by (subst chunk_windows_step)
      (simp add: len, simp add: CHUNK_SIZE_def STEP_SIZE_def OVERLAP_SIZE_def dw2 len)
  have w3: "chunk_windows ?bs 2304 = []"
    by (simp add: chunk_windows_past_end len)
  have v: "list_all is_scalar trimmed_content"
    by (simp add: trimmed_content_def is_scalar_def list_all_iff)
  have ws: "chunk_windows ?bs 0 =
      [(replicate 1023 97, 0, 1023), (replicate 255 97 @ [233] @ replicate 600 97, 768, 1625),
       (replicate 89 97, 1536, 1625)]"
    unfolding w0 w1 w2 w3 ..
  show ?thesis
    using v by (simp add: chunk_content_def str_encode_def utf8_encode_trimmed ws)
qed


declare step_offsets.simps [simp del]

lemma encode_char_length: "1 \<le> length (encode_char c) \<and> length (encode_char c) \<le> 4"
  by (simp add: encode_char_def)

lemma decode_proper_prefix:
  assumes "is_scalar c" and "0 < j" and "j < length (encode_char c)"
  shows "utf8_decode (take j (encode_char c)) = None"
proof -
  consider "c < 128" | "128 \<le> c" "c < 2048" | "2048 \<le> c" "c < 65536"
    | "65536 \<le> c" "c < 1114112"
    using assms(1) unfolding is_scalar_def by (meson not_le_imp_less)
  then show ?thesis
  proof cases
    case 1
    with assms(2,3) show ?thesis by (simp add: encode_char_def)
  next
    case 2
    then have e: "encode_char c = [192 + c div 64, 128 + c mod 64]"
      by (simp add: encode_char_def)
    from assms(2,3) have j: "j = 1" unfolding e by simp
    have "194 \<le> 192 + c div 64" "192 + c div 64 < 224" using 2 by simp_all
    then show ?thesis unfolding e j by simp
  next
    case 3
    then have e: "encode_char c = [224 + c div 4096, 128 + c div 64 mod 64, 128 + c mod 64]"
      by (simp add: encode_char_def)
    from assms(2,3) have j: "j = 1 \<or> j = 2" unfolding e by auto
    have "224 + c div 4096 < 240" using 3 by simp
    then show ?thesis using j unfolding e by (auto simp: numeral_2_eq_2)
  next
    case 4
    then have e: "encode_char c = [240 + c div 262144, 128 + c div 4096 mod 64,
        128 + c div 64 mod 64, 128 + c mod 64]"
      by (simp add: encode_char_def)
    from assms(2,3) have j: "j = 1 \<or> j = 2 \<or> j = 3" unfolding e by auto
    have "240 + c div 262144 < 245" using 4 by simp
    then show ?thesis using j unfolding e by (auto simp: numeral_2_eq_2 numeral_3_eq_3)
  qed
qed

lemma decode_take_boundary:
  "list_all is_scalar r \<Longrightarrow> j \<le> length (utf8_encode r) \<Longrightarrow>
     (utf8_decode (take j (utf8_encode r)) \<noteq> None) = is_boundary r j"
proof (induction r arbitrary: j)
  case Nil
  then show ?case by (simp add: utf8_encode_def)
next
  case (Cons c cs)
  let ?k = "length (encode_char c)"
  have enc: "utf8_encode (c # cs) = encode_char c @ utf8_encode cs"
    by (simp add: utf8_encode_def)
  have k: "1 \<le> ?k" using encode_char_length [of c] by simp
  from Cons.prems have sc: "is_scalar c" and scs: "list_all is_scalar cs" by simp_all
  consider "j = 0" | "0 < j" "j < ?k" | "?k \<le> j" by linarith
  then show ?case
  proof cases
    case 1
    then show ?thesis by simp
  next
    case 2
    then have "take j (utf8_encode (c # cs)) = take j (encode_char c)"
      unfolding enc by simp
    with decode_proper_prefix [OF sc 2] 2 show ?thesis by simp
  next
    case 3
    then have t: "take j (utf8_encode (c # cs)) = encode_char c @ take (j - ?k) (utf8_encode cs)"
      unfolding enc by simp
    from 3 Cons.prems(2) have "j - ?k \<le> length (utf8_encode cs)"
      unfolding enc by simp
    from Cons.IH [OF scs this]
    have ih: "(utf8_decode (take (j - ?k) (utf8_encode cs)) \<noteq> None) = is_boundary cs (j - ?k)" .
    have "utf8_decode (take j (utf8_encode (c # cs)))
        = map_option (Cons c) (utf8_decode (take (j - ?k) (utf8_encode cs)))"
      unfolding t by (rule utf8_decode_encode_char [OF sc])
    with ih 3 k show ?thesis by auto
  qed
qed

lemma is_boundary_le: "is_boundary s j \<Longrightarrow> j \<le> length (utf8_encode s)"
proof (induction s arbitrary: j)
  case Nil
  then show ?case by simp
next
  case (Cons c cs)
  then show ?case by (fastforce simp: utf8_encode_def)
qed

lemma is_boundary_0: "is_boundary s 0"
  by (cases s) simp_all

lemma is_boundary_end: "is_boundary s (length (utf8_encode s))"
  by (induction s) (simp_all add: utf8_encode_def)

lemma boundary_suffix:
  "list_all is_scalar s \<Longrightarrow> is_boundary s p \<Longrightarrow>
     \<exists>r. list_all is_scalar r \<and> drop p (utf8_encode s) = utf8_encode r
       \<and> (\<forall>j. is_boundary r j = is_boundary s (p + j))"
proof (induction s arbitrary: p)
  case Nil
  then show ?case by (intro exI [of _ "[]"]) (simp add: utf8_encode_def)
next
  case (Cons c cs)
  let ?k = "length (encode_char c)"
  have k: "1 \<le> ?k" using encode_char_length [of c] by simp
  show ?case
  proof (cases "p = 0")
    case True
    with Cons.prems(1) show ?thesis by (intro exI [of _ "c # cs"]) simp
  next
    case False
    with Cons.prems(2) have p: "?k \<le> p" and b: "is_boundary cs (p - ?k)" by simp_all
    from Cons.prems(1) have "list_all is_scalar cs" by simp
    from Cons.IH [OF this b] obtain r where r: "list_all is_scalar r"
      "drop (p - ?k) (utf8_encode cs) = utf8_encode r"
      "\<forall>j. is_boundary r j = is_boundary cs (p - ?k + j)"
      by blast
    have "drop p (utf8_encode (c # cs)) = utf8_encode r"
      using p r(2) by (simp add: utf8_encode_def)
    moreover have "is_boundary r j = is_boundary (c # cs) (p + j)" for j
      using r(3) p k by simp
    ultimately show ?thesis using r(1) by blast
  qed
qed

lemma slice_decode_boundary:
  assumes "list_all is_scalar s" and "is_boundary s p" and "p \<le> e"
    and "e \<le> length (utf8_encode s)"
  shows "(utf8_decode (slice (utf8_encode s) p e) \<noteq> None) = is_boundary s e"
proof -
  from boundary_suffix [OF assms(1,2)] obtain r where r: "list_all is_scalar r"
    "drop p (utf8_encode s) = utf8_encode r" "\<forall>j. is_boundary r j = is_boundary s (p + j)"
    by blast
  have "length (utf8_encode r) = length (utf8_encode s) - p"
    using r(2) by (metis length_drop)
  with assms(3,4) have le: "e - p \<le> length (utf8_encode r)" by simp
  have "slice (utf8_encode s) p e = take (e - p) (utf8_encode r)"
    by (simp add: slice_def r(2))
  with decode_take_boundary [OF r(1) le] r(3) assms(3) show ?thesis by simp
qed

lemma boundary_near:
  "e \<le> length (utf8_encode s) \<Longrightarrow> \<exists>b. is_boundary s b \<and> b \<le> e \<and> e < b + 4"
proof (induction s arbitrary: e)
  case Nil
  then show ?case by (simp add: utf8_encode_def)
next
  case (Cons c cs)
  let ?k = "length (encode_char c)"
  have k: "1 \<le> ?k" "?k \<le> 4" using encode_char_length [of c] by simp_all
  show ?case
  proof (cases "e < ?k")
    case True
    with k show ?thesis by (intro exI [of _ 0]) simp
  next
    case False
    with Cons.prems have "e - ?k \<le> length (utf8_encode cs)" by (simp add: utf8_encode_def)
    from Cons.IH [OF this] obtain b where b: "is_boundary cs b" "b \<le> e - ?k" "e - ?k < b + 4"
      by blast
    with False show ?thesis by (intro exI [of _ "b + ?k"]) auto
  qed
qed

lemma decode_window_first:
  "decode_window bs pos e = Some (t, e') \<Longrightarrow> e' < e'' \<Longrightarrow> e'' \<le> e \<Longrightarrow>
     utf8_decode (slice bs pos e'') = None"
proof (induction bs pos e rule: decode_window.induct)
  case (1 bs pos e)
  show ?case
  proof (cases "e > pos")
    case False
    with "1.prems"(1) show ?thesis by (simp add: decode_window.simps)
  next
    case True
    show ?thesis
    proof (cases "utf8_decode (slice bs pos e)")
      case (Some u)
      with True "1.prems" show ?thesis by (simp add: decode_window.simps)
    next
      case None
      with True "1.prems"(1) have r: "decode_window bs pos (e - 1) = Some (t, e')"
        by (simp add: decode_window_miss)
      show ?thesis
      proof (cases "e'' = e")
        case True
        with None show ?thesis by simp
      next
        case False
        with "1.prems"(3) have "e'' \<le> e - 1" by simp
        from "1.IH" [OF True None r "1.prems"(2) this] show ?thesis .
      qed
    qed
  qed
qed

lemma decode_window_None:
  "decode_window bs pos e = None \<Longrightarrow> pos < e'' \<Longrightarrow> e'' \<le> e \<Longrightarrow>
     utf8_decode (slice bs pos e'') = None"
proof (induction bs pos e rule: decode_window.induct)
  case (1 bs pos e)
  from "1.prems"(2,3) have gt: "e > pos" by simp
  show ?case
  proof (cases "utf8_decode (slice bs pos e)")
    case (Some u)
    with gt "1.prems"(1) show ?thesis by (simp add: decode_window.simps)
  next
    case None
    with gt "1.prems"(1) have r: "decode_window bs pos (e - 1) = None"
      by (simp add: decode_window_miss)
    show ?thesis
    proof (cases "e'' = e")
      case True
      with None show ?thesis by simp
    next
      case False
      with "1.prems"(3) have "e'' \<le> e - 1" by simp
      from "1.IH" [OF gt None r "1.prems"(2) this] show ?thesis .
    qed
  qed
qed

lemma window_end_on_boundary:
  assumes valid: "list_all is_scalar s" and p: "is_boundary s pos"
    and lt: "pos < length (utf8_encode s)"
  shows "\<exists>t e'. decode_window (utf8_encode s) pos
            (min (pos + CHUNK_SIZE) (length (utf8_encode s))) = Some (t, e')
     \<and> pos < e' \<and> e' \<le> min (pos + CHUNK_SIZE) (length (utf8_encode s))
     \<and> min (pos + CHUNK_SIZE) (length (utf8_encode s)) < e' + 4
     \<and> is_boundary s e'
     \<and> (\<forall>b. is_boundary s b \<and> b \<le> min (pos + CHUNK_SIZE) (length (utf8_encode s))
            \<longrightarrow> b \<le> e')"
proof -
  let ?bs = "utf8_encode s"
  let ?L = "length ?bs"
  let ?N = "min (pos + CHUNK_SIZE) ?L"
  have NL: "?N \<le> ?L" by simp
  have pN: "pos < ?N" using lt by (simp add: CHUNK_SIZE_def)
  have "\<exists>b. is_boundary s b \<and> pos < b \<and> b \<le> ?N \<and> ?N < b + 4"
  proof (cases "?N = ?L")
    case True
    with lt is_boundary_end [of s] show ?thesis by (intro exI [of _ ?L]) simp
  next
    case False
    then have N: "?N = pos + CHUNK_SIZE" by simp
    from boundary_near [OF NL] obtain b where b: "is_boundary s b" "b \<le> ?N" "?N < b + 4"
      by blast
    from b(3) have "pos < b" unfolding N by (simp add: CHUNK_SIZE_def)
    with b show ?thesis by blast
  qed
  then obtain bm where bm: "is_boundary s bm" "pos < bm" "bm \<le> ?N" "?N < bm + 4"
    by blast
  have ok: "utf8_decode (slice ?bs pos b) \<noteq> None" if "is_boundary s b" "pos \<le> b" for b
    using slice_decode_boundary [OF valid p that(2) is_boundary_le [OF that(1)]] that(1)
    by simp
  have "decode_window ?bs pos ?N \<noteq> None"
  proof
    assume "decode_window ?bs pos ?N = None"
    from decode_window_None [OF this bm(2,3)] ok [OF bm(1)] bm(2) show False by simp
  qed
  then obtain t e' where dw: "decode_window ?bs pos ?N = Some (t, e')" by fastforce
  from decode_window_Some [OF dw] have e': "pos < e'" "e' \<le> ?N"
    "utf8_decode (slice ?bs pos e') = Some t" by simp_all
  have top: "b \<le> e'" if "is_boundary s b" "b \<le> ?N" for b
  proof (rule ccontr)
    assume "\<not> b \<le> e'"
    then have "e' < b" by simp
    from decode_window_first [OF dw this that(2)] ok [OF that(1)] \<open>e' < b\<close> e'(1)
    show False by simp
  qed
  from e'(2) NL have "e' \<le> ?L" by simp
  from slice_decode_boundary [OF valid p _ this] e'(1,3) have be: "is_boundary s e'" by simp
  from top [OF bm(1,3)] bm(4) have "?N < e' + 4" by simp
  with dw e' be top show ?thesis by blast
qed

lemma chunk_windows_decode:
  "w \<in> set (chunk_windows bs pos) \<Longrightarrow>
     decode_window bs (chunk_start w) (min (chunk_start w + CHUNK_SIZE) (length bs))
       = Some (fst w, chunk_end w)"
proof (induction bs pos rule: chunk_windows.induct)
  case (1 bs pos)
  show ?case
  proof (cases "pos < length bs")
    case False
    with "1.prems" show ?thesis by (simp add: chunk_windows_past_end)
  next
    case True
    from "1.prems" chunk_windows_step [OF True]
    consider t e where "decode_window bs pos (min (pos + CHUNK_SIZE) (length bs)) = Some (t, e)"
        "w = (t, pos, e)"
      | "w \<in> set (chunk_windows bs (pos + STEP_SIZE))"
      by (auto split: option.splits)
    then show ?thesis
    proof cases
      case 1
      then show ?thesis by (simp add: chunk_start_def chunk_end_def)
    next
      case 2
      from "1.IH" [OF True 2] show ?thesis .
    qed
  qed
qed

lemma step_offsets_bound: "q \<in> set (step_offsets pos n) \<Longrightarrow> pos \<le> q \<and> q < n"
proof (induction pos n rule: step_offsets.induct)
  case (1 pos n)
  show ?case
  proof (cases "pos < n")
    case False
    with "1.prems" show ?thesis by (simp add: step_offsets.simps)
  next
    case True
    with "1.prems" have "q = pos \<or> q \<in> set (step_offsets (pos + STEP_SIZE) n)"
      by (subst (asm) step_offsets.simps) simp
    with "1.IH" [OF True] True show ?thesis by auto
  qed
qed

lemma step_offsets_nth:
  "i < length (step_offsets pos n) \<Longrightarrow> step_offsets pos n ! i = pos + i * STEP_SIZE"
proof (induction pos n arbitrary: i rule: step_offsets.induct)
  case (1 pos n)
  show ?case
  proof (cases "pos < n")
    case False
    with "1.prems" show ?thesis by (simp add: step_offsets.simps)
  next
    case True
    then have u: "step_offsets pos n = pos # step_offsets (pos + STEP_SIZE) n"
      by (subst step_offsets.simps) simp
    show ?thesis
    proof (cases i)
      case 0
      then show ?thesis by (simp add: u)
    next
      case (Suc j)
      with "1.prems" have "j < length (step_offsets (pos + STEP_SIZE) n)" by (simp add: u)
      from "1.IH" [OF True this] Suc show ?thesis by (simp add: u)
    qed
  qed
qed

lemma chunk_windows_starts:
  assumes "list_all is_scalar s"
  shows "\<forall>q\<in>set (step_offsets pos (length (utf8_encode s))). is_boundary s q \<Longrightarrow>
     map chunk_start (chunk_windows (utf8_encode s) pos)
       = step_offsets pos (length (utf8_encode s))"
proof (induction "utf8_encode s" pos rule: chunk_windows.induct)
  case (1 pos)
  let ?bs = "utf8_encode s"
  show ?case
  proof (cases "pos < length ?bs")
    case False
    then show ?thesis by (simp add: chunk_windows_past_end step_offsets.simps)
  next
    case True
    then have u: "step_offsets pos (length ?bs) = pos # step_offsets (pos + STEP_SIZE) (length ?bs)"
      by (subst step_offsets.simps) simp
    with "1.prems" have b: "is_boundary s pos"
      and rest: "\<forall>q\<in>set (step_offsets (pos + STEP_SIZE) (length ?bs)). is_boundary s q"
      by simp_all
    from window_end_on_boundary [OF assms b True] obtain t e'
      where "decode_window ?bs pos (min (pos + CHUNK_SIZE) (length ?bs)) = Some (t, e')"
      by blast
    with chunk_windows_step [OF True] "1.hyps" [OF True rest] u
    show ?thesis by (simp add: chunk_start_def)
  qed
qed

lemma chunk_windows_ends:
  assumes valid: "list_all is_scalar s"
    and H: "\<forall>q\<in>set (step_offsets 0 (length (utf8_encode s))). is_boundary s q"
    and w: "w \<in> set (chunk_windows (utf8_encode s) 0)"
  shows "is_boundary s (chunk_start w) \<and> chunk_start w < length (utf8_encode s)
    \<and> is_boundary s (chunk_end w)
    \<and> chunk_end w \<le> min (chunk_start w + CHUNK_SIZE) (length (utf8_encode s))
    \<and> min (chunk_start w + CHUNK_SIZE) (length (utf8_encode s)) < chunk_end w + 4
    \<and> (\<forall>b. is_boundary s b \<and> b \<le> min (chunk_start w + CHUNK_SIZE) (length (utf8_encode s))
          \<longrightarrow> b \<le> chunk_end w)"
proof -
  let ?bs = "utf8_encode s"
  from w have "chunk_start w \<in> set (map chunk_start (chunk_windows ?bs 0))" by simp
  then have m: "chunk_start w \<in> set (step_offsets 0 (length ?bs))"
    unfolding chunk_windows_starts [OF valid H] .
  with H have b: "is_boundary s (chunk_start w)" by blast
  from step_offsets_bound [OF m] have lt: "chunk_start w < length ?bs" by simp
  from window_end_on_boundary [OF valid b lt] chunk_windows_decode [OF w]
  show ?thesis using b lt by auto
qed

lemma chunk_windows_consecutive:
  assumes valid: "list_all is_scalar s"
    and H: "\<forall>q\<in>set (step_offsets 0 (length (utf8_encode s))). is_boundary s q"
    and i: "Suc i < length (chunk_windows (utf8_encode s) 0)"
  shows "chunk_start (chunk_windows (utf8_encode s) 0 ! Suc i)
       = chunk_start (chunk_windows (utf8_encode s) 0 ! i) + STEP_SIZE
    \<and> (chunk_start (chunk_windows (utf8_encode s) 0 ! i) + CHUNK_SIZE \<le> length (utf8_encode s)
        \<longrightarrow> chunk_start (chunk_windows (utf8_encode s) 0 ! Suc i) + OVERLAP_SIZE
              \<le> chunk_end (chunk_windows (utf8_encode s) 0 ! i) + 3
          \<and> chunk_end (chunk_windows (utf8_encode s) 0 ! i)
              \<le> chunk_start (chunk_windows (utf8_encode s) 0 ! Suc i) + OVERLAP_SIZE
          \<and> (chunk_end (chunk_windows (utf8_encode s) 0 ! i)
               = chunk_start (chunk_windows (utf8_encode s) 0 ! Suc i) + OVERLAP_SIZE
              \<longleftrightarrow> is_boundary s (chunk_start (chunk_windows (utf8_encode s) 0 ! i) + CHUNK_SIZE)))
    \<and> (length (utf8_encode s) < chunk_start (chunk_windows (utf8_encode s) 0 ! i) + CHUNK_SIZE
        \<longrightarrow> chunk_end (chunk_windows (utf8_encode s) 0 ! i) = length (utf8_encode s)
          \<and> chunk_end (chunk_windows (utf8_encode s) 0 ! Suc i) = length (utf8_encode s)
          \<and> Suc (Suc i) = length (chunk_windows (utf8_encode s) 0))"
proof -
  let ?L = "length (utf8_encode s)"
  let ?ws = "chunk_windows (utf8_encode s) 0"
  let ?w = "?ws ! i"
  let ?w' = "?ws ! Suc i"
  note starts = chunk_windows_starts [OF valid H]
  have len: "length (step_offsets 0 ?L) = length ?ws"
    by (metis starts length_map)
  have nth: "chunk_start (?ws ! j) = j * STEP_SIZE" if "j < length ?ws" for j
  proof -
    have "chunk_start (?ws ! j) = map chunk_start ?ws ! j" using that by simp
    also have "\<dots> = step_offsets 0 ?L ! j" unfolding starts ..
    also have "\<dots> = 0 + j * STEP_SIZE" using that len by (intro step_offsets_nth) simp
    finally show ?thesis by simp
  qed
  from i have i0: "i < length ?ws" by simp
  have s': "chunk_start ?w' = chunk_start ?w + STEP_SIZE"
    using nth [OF i] nth [OF i0] by simp
  have mem: "?w \<in> set ?ws" "?w' \<in> set ?ws" using i by simp_all
  note E = chunk_windows_ends [OF valid H mem(1)]
  note E' = chunk_windows_ends [OF valid H mem(2)]
  have full: "chunk_start ?w' + OVERLAP_SIZE \<le> chunk_end ?w + 3
      \<and> chunk_end ?w \<le> chunk_start ?w' + OVERLAP_SIZE
      \<and> (chunk_end ?w = chunk_start ?w' + OVERLAP_SIZE
          \<longleftrightarrow> is_boundary s (chunk_start ?w + CHUNK_SIZE))"
    if c: "chunk_start ?w + CHUNK_SIZE \<le> ?L"
  proof -
    from c have N: "min (chunk_start ?w + CHUNK_SIZE) ?L = chunk_start ?w + CHUNK_SIZE"
      by simp
    have sum: "chunk_start ?w' + OVERLAP_SIZE = chunk_start ?w + CHUNK_SIZE"
      unfolding s' by (simp add: STEP_SIZE_def CHUNK_SIZE_def OVERLAP_SIZE_def)
    from E have le: "chunk_end ?w \<le> chunk_start ?w + CHUNK_SIZE"
      and near: "chunk_start ?w + CHUNK_SIZE < chunk_end ?w + 4"
      and be: "is_boundary s (chunk_end ?w)"
      and top: "\<forall>b. is_boundary s b \<and> b \<le> chunk_start ?w + CHUNK_SIZE \<longrightarrow> b \<le> chunk_end ?w"
      unfolding N by simp_all
    have "chunk_end ?w = chunk_start ?w + CHUNK_SIZE
        \<longleftrightarrow> is_boundary s (chunk_start ?w + CHUNK_SIZE)"
    proof
      assume "chunk_end ?w = chunk_start ?w + CHUNK_SIZE"
      with be show "is_boundary s (chunk_start ?w + CHUNK_SIZE)" by simp
    next
      assume "is_boundary s (chunk_start ?w + CHUNK_SIZE)"
      with top have "chunk_start ?w + CHUNK_SIZE \<le> chunk_end ?w" by blast
      with le show "chunk_end ?w = chunk_start ?w + CHUNK_SIZE" by simp
    qed
    with le near show ?thesis unfolding sum by simp
  qed
  have cut: "chunk_end ?w = ?L \<and> chunk_end ?w' = ?L \<and> Suc (Suc i) = length ?ws"
    if c: "?L < chunk_start ?w + CHUNK_SIZE"
  proof -
    from c have N: "min (chunk_start ?w + CHUNK_SIZE) ?L = ?L" by simp
    from c have N': "min (chunk_start ?w' + CHUNK_SIZE) ?L = ?L" unfolding s' by simp
    from E is_boundary_end [of s] have e: "chunk_end ?w = ?L"
      unfolding N by (metis le_antisym order_refl)
    from E' is_boundary_end [of s] have e': "chunk_end ?w' = ?L"
      unfolding N' by (metis le_antisym order_refl)
    have "\<not> Suc (Suc i) < length ?ws"
    proof
      assume a: "Suc (Suc i) < length ?ws"
      then have "?ws ! Suc (Suc i) \<in> set ?ws" by simp
      from chunk_windows_ends [OF valid H this] nth [OF a] nth [OF i0] c
      show False by (simp add: STEP_SIZE_def CHUNK_SIZE_def OVERLAP_SIZE_def)
    qed
    with i have "Suc (Suc i) = length ?ws" by simp
    with e e' show ?thesis by simp
  qed
  from s' full cut show ?thesis by blast
qed

lemma is_boundary_ascii_append:
  "\<forall>c\<in>set a. c < 128 \<Longrightarrow>
     is_boundary (a @ r) j = (j \<le> length a \<or> is_boundary r (j - length a))"
proof (induction a arbitrary: j)
  case Nil
  then show ?case using is_boundary_0 [of r] by auto
next
  case (Cons c a)
  then have k: "length (encode_char c) = 1" by (simp add: encode_char_def)
  from Cons have ih: "is_boundary (a @ r) (j - 1)
      = (j - 1 \<le> length a \<or> is_boundary r (j - 1 - length a))"
    by simp
  show ?case
  proof (cases "j = 0")
    case True
    then show ?thesis by simp
  next
    case False
    then show ?thesis using ih k by auto
  qed
qed

lemma is_boundary_ascii: "\<forall>c\<in>set a. c < 128 \<Longrightarrow> is_boundary a j = (j \<le> length a)"
  using is_boundary_ascii_append [of a "[]" j] by auto

lemma step_offsets_examples:
  "step_offsets 0 1625 = [0, 768, 1536]"
  "step_offsets 0 2000 = [0, 768, 1536]"
  by (simp_all add: step_offsets.simps STEP_SIZE_def CHUNK_SIZE_def OVERLAP_SIZE_def)

lemma trimmed_length: "length (utf8_encode trimmed_content) = 1625"
  by (simp add: utf8_encode_trimmed trimmed_bytes_def)

lemma trimmed_boundaries:
  "is_boundary trimmed_content j = (j \<le> 1023 \<or> (1025 \<le> j \<and> j \<le> 1625))"
proof -
  have e: "length (encode_char 233) = 2" by (simp add: encode_char_def)
  have a: "\<forall>c\<in>set (replicate 600 (97::nat)). c < 128" by simp
  have mid: "is_boundary (233 # replicate 600 97) i = (i = 0 \<or> (2 \<le> i \<and> i \<le> 602))" for i
    unfolding is_boundary.simps e is_boundary_ascii [OF a] by (simp, arith)
  have "is_boundary trimmed_content j
      = (j \<le> 1023 \<or> is_boundary (233 # replicate 600 97) (j - 1023))"
    unfolding trimmed_content_def
    by (subst is_boundary_ascii_append) simp_all
  then show ?thesis unfolding mid by arith
qed


text \<open>
  C5, as amended. For every input on which \<open>chunk_content\<close> returns, the windows after
  the title chunk have strictly increasing start offsets and each window is non-empty
  and at most \<open>CHUNK_SIZE = 1024\<close> bytes long. When every step offset (the multiples of
  \<open>STEP_SIZE = 768\<close> below the length of the encoded content) is a character boundary,
  there is exactly one window for every step offset, starting there, so that successive
  windows start exactly 768 bytes apart; each window ends at the last character boundary
  at or before its nominal end (its start plus 1024, or the end of the content if that
  comes first), at most 3 bytes before it. Hence two consecutive windows, of which the
  earlier has its nominal end within the content, overlap by at least 253 and at most
  \<open>OVERLAP_SIZE = 256\<close> bytes, and by exactly 256 bytes if and only if that nominal end
  is a character boundary; and when the earlier window already reaches the end of the
  content, the later one is the final window and ends there too. What happens at a step
  offset that is not a character boundary is not part of this statement.
\<close>

theorem chunk_windows_spans:
  assumes "chunk_content title content = Inr chunks"
  shows "sorted_wrt (\<lambda>w w'. chunk_start w < chunk_start w') (tl chunks)
    \<and> (\<forall>w\<in>set (tl chunks). chunk_start w < chunk_end w
          \<and> chunk_end w - chunk_start w \<le> CHUNK_SIZE)
    \<and> ((\<forall>q\<in>set (step_offsets 0 (length (utf8_encode content))). is_boundary content q) \<longrightarrow>
         map chunk_start (tl chunks) = step_offsets 0 (length (utf8_encode content))
       \<and> (\<forall>w\<in>set (tl chunks).
             is_boundary content (chunk_end w)
           \<and> chunk_end w \<le> min (chunk_start w + CHUNK_SIZE) (length (utf8_encode content))
           \<and> min (chunk_start w + CHUNK_SIZE) (length (utf8_encode content)) < chunk_end w + 4
           \<and> (\<forall>b. is_boundary content b
                  \<and> b \<le> min (chunk_start w + CHUNK_SIZE) (length (utf8_encode content))
                 \<longrightarrow> b \<le> chunk_end w))
       \<and> (\<forall>i. Suc i < length (tl chunks) \<longrightarrow>
             chunk_start (tl chunks ! Suc i) = chunk_start (tl chunks ! i) + STEP_SIZE
           \<and> (chunk_start (tl chunks ! i) + CHUNK_SIZE \<le> length (utf8_encode content)
               \<longrightarrow> chunk_start (tl chunks ! Suc i) + OVERLAP_SIZE \<le> chunk_end (tl chunks ! i) + 3
                 \<and> chunk_end (tl chunks ! i) \<le> chunk_start (tl chunks ! Suc i) + OVERLAP_SIZE
                 \<and> (chunk_end (tl chunks ! i) = chunk_start (tl chunks ! Suc i) + OVERLAP_SIZE
                     \<longleftrightarrow> is_boundary content (chunk_start (tl chunks ! i) + CHUNK_SIZE)))
           \<and> (length (utf8_encode content) < chunk_start (tl chunks ! i) + CHUNK_SIZE
               \<longrightarrow> chunk_end (tl chunks ! i) = length (utf8_encode content)
                 \<and> chunk_end (tl chunks ! Suc i) = length (utf8_encode content)
                 \<and> Suc (Suc i) = length (tl chunks))))"
proof -
  from assms have valid: "list_all is_scalar content"
    and ws: "tl chunks = chunk_windows (utf8_encode content) 0"
    by (auto simp: chunk_content_def str_encode_def split: if_splits)
  have "0 < STEP_SIZE" by (simp add: STEP_SIZE_def CHUNK_SIZE_def OVERLAP_SIZE_def)
  then have mono: "sorted_wrt (\<lambda>w w'. chunk_start w < chunk_start w') (tl chunks)"
    unfolding ws
    using sorted_wrt_mono_rel [OF _ chunk_windows_sorted [of "utf8_encode content" 0],
        of "\<lambda>w w'. chunk_start w < chunk_start w'"]
    by simp
  have len: "\<forall>w\<in>set (tl chunks). chunk_start w < chunk_end w
      \<and> chunk_end w - chunk_start w \<le> CHUNK_SIZE"
    unfolding ws using chunk_windows_member [of _ "utf8_encode content" 0] by fastforce
  have cond: "map chunk_start (tl chunks) = step_offsets 0 (length (utf8_encode content))
       \<and> (\<forall>w\<in>set (tl chunks).
             is_boundary content (chunk_end w)
           \<and> chunk_end w \<le> min (chunk_start w + CHUNK_SIZE) (length (utf8_encode content))
           \<and> min (chunk_start w + CHUNK_SIZE) (length (utf8_encode content)) < chunk_end w + 4
           \<and> (\<forall>b. is_boundary content b
                  \<and> b \<le> min (chunk_start w + CHUNK_SIZE) (length (utf8_encode content))
                 \<longrightarrow> b \<le> chunk_end w))
       \<and> (\<forall>i. Suc i < length (tl chunks) \<longrightarrow>
             chunk_start (tl chunks ! Suc i) = chunk_start (tl chunks ! i) + STEP_SIZE
           \<and> (chunk_start (tl chunks ! i) + CHUNK_SIZE \<le> length (utf8_encode content)
               \<longrightarrow> chunk_start (tl chunks ! Suc i) + OVERLAP_SIZE \<le> chunk_end (tl chunks ! i) + 3
                 \<and> chunk_end (tl chunks ! i) \<le> chunk_start (tl chunks ! Suc i) + OVERLAP_SIZE
                 \<and> (chunk_end (tl chunks ! i) = chunk_start (tl chunks ! Suc i) + OVERLAP_SIZE
                     \<longleftrightarrow> is_boundary content (chunk_start (tl chunks ! i) + CHUNK_SIZE)))
           \<and> (length (utf8_encode content) < chunk_start (tl chunks ! i) + CHUNK_SIZE
               \<longrightarrow> chunk_end (tl chunks ! i) = length (utf8_encode content)
                 \<and> chunk_end (tl chunks ! Suc i) = length (utf8_encode content)
                 \<and> Suc (Suc i) = length (tl chunks)))"
    if H: "\<forall>q\<in>set (step_offsets 0 (length (utf8_encode content))). is_boundary content q"
  proof -
    have starts: "map chunk_start (tl chunks) = step_offsets 0 (length (utf8_encode content))"
      unfolding ws by (rule chunk_windows_starts [OF valid H])
    have ends: "is_boundary content (chunk_end w)
           \<and> chunk_end w \<le> min (chunk_start w + CHUNK_SIZE) (length (utf8_encode content))
           \<and> min (chunk_start w + CHUNK_SIZE) (length (utf8_encode content)) < chunk_end w + 4
           \<and> (\<forall>b. is_boundary content b
                  \<and> b \<le> min (chunk_start w + CHUNK_SIZE) (length (utf8_encode content))
                 \<longrightarrow> b \<le> chunk_end w)"
      if "w \<in> set (tl chunks)" for w
      using chunk_windows_ends [OF valid H, of w] that unfolding ws by blast
    have pairs: "chunk_start (tl chunks ! Suc i) = chunk_start (tl chunks ! i) + STEP_SIZE
           \<and> (chunk_start (tl chunks ! i) + CHUNK_SIZE \<le> length (utf8_encode content)
               \<longrightarrow> chunk_start (tl chunks ! Suc i) + OVERLAP_SIZE \<le> chunk_end (tl chunks ! i) + 3
                 \<and> chunk_end (tl chunks ! i) \<le> chunk_start (tl chunks ! Suc i) + OVERLAP_SIZE
                 \<and> (chunk_end (tl chunks ! i) = chunk_start (tl chunks ! Suc i) + OVERLAP_SIZE
                     \<longleftrightarrow> is_boundary content (chunk_start (tl chunks ! i) + CHUNK_SIZE)))
           \<and> (length (utf8_encode content) < chunk_start (tl chunks ! i) + CHUNK_SIZE
               \<longrightarrow> chunk_end (tl chunks ! i) = length (utf8_encode content)
                 \<and> chunk_end (tl chunks ! Suc i) = length (utf8_encode content)
                 \<and> Suc (Suc i) = length (tl chunks))"
      if "Suc i < length (tl chunks)" for i
      using chunk_windows_consecutive [OF valid H, of i] that unfolding ws by blast
    from starts ends pairs show ?thesis by blast
  qed
  from mono len cond show ?thesis by blast
qed

theorem chunk_windows_spans_witness:
  "chunk_content (ustr ''a'') trimmed_content =
     Inr [(ustr ''a'', 0, 0), (replicate 1023 97, 0, 1023),
          (replicate 255 97 @ [233] @ replicate 600 97, 768, 1625),
          (replicate 89 97, 1536, 1625)]
   \<and> step_offsets 0 (length (utf8_encode trimmed_content)) = [0, 768, 1536]
   \<and> is_boundary trimmed_content 0 \<and> is_boundary trimmed_content 768
   \<and> is_boundary trimmed_content 1536
   \<and> 768 + OVERLAP_SIZE \<le> 1023 + (3::nat)
   \<and> \<not> is_boundary trimmed_content (0 + CHUNK_SIZE)
   \<and> chunk_content (ustr ''a'') (replicate 2000 97) =
       Inr [(ustr ''a'', 0, 0), (replicate 1024 97, 0, 1024), (replicate 1024 97, 768, 1792),
            (replicate 464 97, 1536, 2000)]
   \<and> is_boundary (replicate 2000 97) (0 + CHUNK_SIZE)
   \<and> is_boundary (replicate 2000 97) (768 + CHUNK_SIZE)"
proof -
  have H: "\<forall>q\<in>set (step_offsets 0 (length (utf8_encode trimmed_content))).
      is_boundary trimmed_content q"
    by (simp add: trimmed_length step_offsets_examples trimmed_boundaries)
  have a: "\<forall>b\<in>set (replicate 2000 (97::nat)). b < 128" by simp
  have l: "length (utf8_encode (replicate 2000 97)) = 2000"
    by (simp add: utf8_encode_ascii [OF a])
  have H2: "\<forall>q\<in>set (step_offsets 0 (length (utf8_encode (replicate 2000 97)))).
      is_boundary (replicate 2000 97) q"
    by (simp add: l step_offsets_examples is_boundary_ascii [OF a])
  note T = chunk_windows_spans [OF chunk_content_trimmed, THEN conjunct2, THEN conjunct2,
      THEN mp, OF H, THEN conjunct2, THEN conjunct2, THEN spec, of 0]
  from T have t: "768 + OVERLAP_SIZE \<le> 1023 + (3::nat)
      \<and> \<not> is_boundary trimmed_content (0 + CHUNK_SIZE)"
    by (simp add: trimmed_length chunk_start_def chunk_end_def CHUNK_SIZE_def OVERLAP_SIZE_def
        STEP_SIZE_def)
  note T2 = chunk_windows_spans [OF chunk_content_2000, THEN conjunct2, THEN conjunct2,
      THEN mp, OF H2, THEN conjunct2, THEN conjunct2, THEN spec]
  from T2 [of 0] T2 [of 1]
  have u: "is_boundary (replicate 2000 97) (0 + CHUNK_SIZE)
      \<and> is_boundary (replicate 2000 97) (768 + CHUNK_SIZE)"
    by (simp add: l chunk_start_def chunk_end_def)
      (simp add: CHUNK_SIZE_def OVERLAP_SIZE_def STEP_SIZE_def)
  from t u show ?thesis
    by (simp add: chunk_content_trimmed chunk_content_2000 trimmed_length step_offsets_examples
        trimmed_boundaries)
qed

text \<open>
  The claim C5 as stated fails where a window is trimmed at a character boundary: in
  \<open>trimmed_content\<close> the first window would end inside the two-byte character at offset
  1023 and is cut to 1023 bytes, so it overlaps the second window, which starts at 768
  and is not the last one, by 255 bytes.
\<close>

theorem chunk_windows_overlap_counterexample:
  "chunk_content (ustr ''a'') trimmed_content =
     Inr [(ustr ''a'', 0, 0), (replicate 1023 97, 0, 1023),
          (replicate 255 97 @ [233] @ replicate 600 97, 768, 1625),
          (replicate 89 97, 1536, 1625)]
   \<and> int (chunk_end (replicate 1023 97, 0, 1023))
       - int (chunk_start (replicate 255 97 @ [233] @ replicate 600 97, 768, 1625)) = 255
   \<and> int OVERLAP_SIZE = 256"
  using chunk_content_trimmed by (simp add: chunk_start_def chunk_end_def OVERLAP_SIZE_def)


section \<open>Properties of the sync engine\<close>

lemma map_fst_enumerate_fun:
  "map (\<lambda>x. g (fst x)) (enumerate n xs) = map g [n..<n + length xs]"
proof -
  have "map (\<lambda>x. g (fst x)) (enumerate n xs) = map g (map fst (enumerate n xs))"
    by (simp only: map_map comp_def)
  then show ?thesis by (simp only: map_fst_enumerate)
qed

lemma enumerate_rows_ids:
  "map rec_id (build_rows rp t f chunks) = map (make_chunk_id rp) [0..<length chunks]"
  using map_fst_enumerate_fun [of "make_chunk_id rp" 0 chunks]
  by (simp add: build_rows_def split_def comp_def)

lemma build_rows_distinct: "distinct (map rec_id (build_rows rp t f chunks))"
  unfolding enumerate_rows_ids
  by (simp add: distinct_map inj_on_def make_chunk_id_eq_iff)

lemma build_rows_file_path:
  "r \<in> set (build_rows rp t f chunks) \<Longrightarrow> md_file_path (rec_metadata r) = rp"
  by (auto simp: build_rows_def)

lemma build_rows_wellformed: "ids_wellformed (build_rows rp t f chunks)"
  by (auto simp: ids_wellformed_def build_rows_def list_all_iff)

lemma rows_of_build_rows: "rows_of rp (build_rows rp t f chunks) = build_rows rp t f chunks"
  by (simp add: rows_of_def build_rows_file_path)

lemma remove_file_chunks_sync_state:
  "file_hashes (remove_file_chunks flt fp s) = file_hashes s
   \<and> metadata_file (remove_file_chunks flt fp s) = metadata_file s"
  by (simp add: remove_file_chunks_def collection_get_def collection_delete_def)

lemma remove_file_chunks_ok:
  assumes "\<not> get_fails flt" and "\<not> delete_fails flt" and "rows_of fp (collection s) \<noteq> []"
  shows "remove_file_chunks flt fp s =
     s\<lparr>collection := filter (\<lambda>r. rec_id r \<notin> set (map rec_id (rows_of fp (collection s))))
                         (collection s),
       index_calls := index_calls s @ [Delete (map rec_id (rows_of fp (collection s)))]\<rparr>"
  using assms
  by (simp add: remove_file_chunks_def collection_get_def collection_delete_def rows_of_def)

lemma remove_file_chunks_failed:
  assumes "get_fails flt \<or> delete_fails flt"
  shows "remove_file_chunks flt fp s = s"
  using assms
  by (auto simp: remove_file_chunks_def collection_get_def collection_delete_def)

lemma delete_own_rows:
  assumes "ids_wellformed rows"
  shows "filter (\<lambda>r. rec_id r \<notin> set (map rec_id (rows_of fp rows))) rows
       = filter (\<lambda>r. md_file_path (rec_metadata r) \<noteq> fp) rows"
proof (rule filter_cong [OF refl])
  fix r assume r: "r \<in> set rows"
  show "(rec_id r \<notin> set (map rec_id (rows_of fp rows))) = (md_file_path (rec_metadata r) \<noteq> fp)"
  proof
    assume "rec_id r \<notin> set (map rec_id (rows_of fp rows))"
    with r show "md_file_path (rec_metadata r) \<noteq> fp"
      by (auto simp: rows_of_def)
  next
    assume ne: "md_file_path (rec_metadata r) \<noteq> fp"
    show "rec_id r \<notin> set (map rec_id (rows_of fp rows))"
    proof
      assume "rec_id r \<in> set (map rec_id (rows_of fp rows))"
      then obtain r' where r': "r' \<in> set rows" "md_file_path (rec_metadata r') = fp"
        "rec_id r' = rec_id r"
        by (auto simp: rows_of_def)
      from assms r r'(1) have
        "rec_id r = make_chunk_id (md_file_path (rec_metadata r)) (md_chunk_index (rec_metadata r))"
        "rec_id r' = make_chunk_id (md_file_path (rec_metadata r')) (md_chunk_index (rec_metadata r'))"
        by (auto simp: ids_wellformed_def list_all_iff)
      with r'(2,3) ne show False by (simp add: make_chunk_id_eq_iff)
    qed
  qed
qed

lemma index_file_run:
  assumes "fv_suffix fv \<in> set [ustr ''.md'', ustr ''.markdown'']"
    and "fv_read_text fv = Inr content" and "fv_hash fv = Inr h"
    and "fv_relative_path fv = Inr rp"
    and "map_of (file_hashes s) rp \<noteq> Some h"
    and "chunk_content (fv_stem fv) content = Inr chunks"
    and "\<not> add_fails flt"
    and "s1 = (if map_of (file_hashes s) rp \<noteq> None then remove_file_chunks flt rp s else s)"
    and "rows = build_rows rp (fv_stem fv) (fv_str fv) chunks"
  shows "file_hashes (index_file fv flt s) = AList.update rp h (file_hashes s)
    \<and> collection (index_file fv flt s)
        = collection s1 @ filter (\<lambda>r. rec_id r \<notin> set (map rec_id (collection s1))) rows
    \<and> index_calls (index_file fv flt s) = index_calls s1 @ [Add (map rec_id rows)]
    \<and> (save_fault flt = SaveOk \<longrightarrow>
         metadata_file (index_file fv flt s)
           = Some (json_dumps (AList.update rp h (file_hashes s))))"
proof -
  have fh1: "file_hashes s1 = file_hashes s"
    using assms(8) by (simp add: remove_file_chunks_sync_state)
  let ?rows = "build_rows rp (fv_stem fv) (fv_str fv) chunks"
  have add: "collection_add flt ?rows s1 =
      Inr (s1\<lparr>collection := collection s1
                 @ filter (\<lambda>r. rec_id r \<notin> set (map rec_id (collection s1))) ?rows,
               index_calls := index_calls s1 @ [Add (map rec_id ?rows)]\<rparr>)"
    using assms(7) build_rows_distinct [of rp "fv_stem fv" "fv_str fv" chunks]
    unfolding collection_add_def by simp
  have s1_eq: "(if map_of (file_hashes s) rp \<noteq> None then remove_file_chunks flt rp s else s) = s1"
    using assms(8) by simp
  have body: "index_file fv flt s =
      (case chunk_content (fv_stem fv) content of
         Inl e \<Rightarrow> s1
       | Inr chunks \<Rightarrow>
          (case collection_add flt (build_rows rp (fv_stem fv) (fv_str fv) chunks) s1 of
             Inl e \<Rightarrow> s1
           | Inr s2 \<Rightarrow>
              (case save_metadata flt
                      (s2\<lparr>file_hashes := AList.update rp h (file_hashes s2)\<rparr>) of
                 Inl (e, s3) \<Rightarrow> s3
               | Inr s3 \<Rightarrow> s3)))"
  proof (cases "map_of (file_hashes s) rp = None")
    case True
    then have s1: "s1 = s" using assms(8) by simp
    show ?thesis unfolding s1 using assms(1-5) True by (simp add: index_file_def Let_def)
  next
    case False
    then have s1: "s1 = remove_file_chunks flt rp s" using assms(8) by simp
    show ?thesis unfolding s1 using assms(1-5) False by (simp add: index_file_def Let_def)
  qed
  have run: "index_file fv flt s =
      (case save_metadata flt
              ((s1\<lparr>collection := collection s1
                      @ filter (\<lambda>r. rec_id r \<notin> set (map rec_id (collection s1))) ?rows,
                    index_calls := index_calls s1 @ [Add (map rec_id ?rows)]\<rparr>)
               \<lparr>file_hashes := AList.update rp h (file_hashes s)\<rparr>) of
         Inl (e, s3) \<Rightarrow> s3
       | Inr s3 \<Rightarrow> s3)"
    using fh1 by (simp add: body assms(6) add)
  show ?thesis
    unfolding run assms(9)
    by (cases "save_fault flt")
      (simp_all add: save_metadata_def metadata_file_written_def json_dumps_def)
qed

lemma index_file_unchanged:
  assumes "fv_hash fv = Inr h" and "fv_relative_path fv = Inr rp"
    and "map_of (file_hashes s) rp = Some h"
  shows "index_file fv flt s = s"
  using assms by (simp add: index_file_def split: sum.splits)

lemma index_file_abort:
  assumes "fv_read_text fv = Inl e \<or> fv_hash fv = Inl e \<or> fv_relative_path fv = Inl e
      \<or> (\<exists>content. fv_read_text fv = Inr content
            \<and> chunk_content (fv_stem fv) content = Inl e)
      \<or> add_fails flt"
  shows "file_hashes (index_file fv flt s) = file_hashes s
    \<and> metadata_file (index_file fv flt s) = metadata_file s"
  using assms
  by (auto simp: index_file_def Let_def remove_file_chunks_sync_state collection_add_def
      split: sum.splits)

lemma chunk_content_Inr:
  "list_all is_scalar content \<Longrightarrow>
     chunk_content t content = Inr ((t, 0, 0) # chunk_windows (utf8_encode content) 0)"
  by (simp add: chunk_content_def str_encode_def)

lemma chunk_content_x: "chunk_content (ustr ''a'') (ustr ''x'') = Inr [(ustr ''a'', 0, 0), (ustr ''x'', 0, 1)]"
  using chunk_content_one_window [of "ustr ''x''" "ustr ''a''"]
  by (simp add: ustr_def is_scalar_def utf8_encode_def encode_char_def STEP_SIZE_def
      CHUNK_SIZE_def OVERLAP_SIZE_def)

lemma chunk_content_y: "chunk_content (ustr ''a'') (ustr ''y'') = Inr [(ustr ''a'', 0, 0), (ustr ''y'', 0, 1)]"
  using chunk_content_one_window [of "ustr ''y''" "ustr ''a''"]
  by (simp add: ustr_def is_scalar_def utf8_encode_def encode_char_def STEP_SIZE_def
      CHUNK_SIZE_def OVERLAP_SIZE_def)

lemma rows_ids:
  "map rec_id rows_v1 = [ustr ''a.md_0'', ustr ''a.md_1'']"
  "map rec_id rows_v2 = [ustr ''a.md_0'', ustr ''a.md_1'']"
  by (simp_all add: rows_v1_def rows_v2_def build_rows_def make_chunk_id_def ustr_def
      str_nat.simps)

lemma rows_of_rows:
  "rows_of (ustr ''a.md'') rows_v1 = rows_v1"
  "rows_of (ustr ''a.md'') rows_v2 = rows_v2"
  by (simp_all add: rows_v1_def rows_v2_def rows_of_build_rows)

lemma synced_v1_eq:
  "synced_v1 = \<lparr>file_hashes = [(ustr ''a.md'', ustr ''h1'')],
     metadata_file = Some (json_dumps [(ustr ''a.md'', ustr ''h1'')]),
     collection = rows_v1,
     index_calls = [Add [ustr ''a.md_0'', ustr ''a.md_1'']]\<rparr>"
proof -
  have "file_hashes synced_v1 = [(ustr ''a.md'', ustr ''h1'')]
    \<and> collection synced_v1 = rows_v1
    \<and> index_calls synced_v1 = [Add (map rec_id rows_v1)]
    \<and> metadata_file synced_v1 = Some (json_dumps [(ustr ''a.md'', ustr ''h1'')])"
    using index_file_run [of view_v1 "ustr ''x''" "ustr ''h1''" "ustr ''a.md''" empty_indexer
        "[(ustr ''a'', 0, 0), (ustr ''x'', 0, 1)]" no_faults empty_indexer rows_v1]
    by (simp add: synced_v1_def view_v1_def empty_indexer_def no_faults_def chunk_content_x
        rows_v1_def)
  then show ?thesis by (cases synced_v1) (simp add: rows_ids)
qed

lemma map_of_update_same: "map_of (AList.update k v al) k = Some v"
  by (simp add: update_conv')

text \<open>
  C2. \<open>index_file\<close> is idempotent under unchanged content. When the file's content
  hash equals the stored fingerprint, the call returns the state as it was: no row of
  the collection is deleted or inserted, no call is made to it, and \<open>file_hashes\<close> and
  the metadata file are unchanged (whatever the faults of the moment). And a second call
  in a row, after a first one that reached the insert, is such a call: it changes
  nothing.
\<close>

theorem index_file_idempotent:
  assumes "fv_hash fv = Inr h" and "fv_relative_path fv = Inr rp"
  shows "(map_of (file_hashes s) rp = Some h \<longrightarrow> index_file fv flt s = s)
    \<and> (fv_suffix fv \<in> set [ustr ''.md'', ustr ''.markdown'']
        \<and> fv_read_text fv = Inr content \<and> list_all is_scalar content \<and> \<not> add_fails flt
        \<longrightarrow> index_file fv flt' (index_file fv flt s) = index_file fv flt s)"
proof (intro conjI impI)
  assume "map_of (file_hashes s) rp = Some h"
  with assms show "index_file fv flt s = s" by (rule index_file_unchanged)
next
  assume a: "fv_suffix fv \<in> set [ustr ''.md'', ustr ''.markdown'']
        \<and> fv_read_text fv = Inr content \<and> list_all is_scalar content \<and> \<not> add_fails flt"
  have "map_of (file_hashes (index_file fv flt s)) rp = Some h"
  proof (cases "map_of (file_hashes s) rp = Some h")
    case True
    with index_file_unchanged [OF assms True] show ?thesis by simp
  next
    case False
    from a have "chunk_content (fv_stem fv) content
        = Inr ((fv_stem fv, 0, 0) # chunk_windows (utf8_encode content) 0)"
      by (simp add: chunk_content_Inr)
    moreover from a have "fv_suffix fv \<in> set [ustr ''.md'', ustr ''.markdown'']"
      and "fv_read_text fv = Inr content" and "\<not> add_fails flt"
      by simp_all
    ultimately show ?thesis
      using index_file_run [OF _ _ assms False _ _ refl refl, of content _ flt]
      by (simp add: map_of_update_same)
  qed
  with assms show "index_file fv flt' (index_file fv flt s) = index_file fv flt s"
    by (rule index_file_unchanged)
qed

theorem index_file_idempotent_witness:
  "index_file view_v1 no_faults (index_file view_v1 no_faults empty_indexer)
     = index_file view_v1 no_faults empty_indexer
   \<and> index_file view_v1 no_faults synced_v1 = synced_v1
   \<and> index_calls synced_v1 = [Add [ustr ''a.md_0'', ustr ''a.md_1'']]"
  using index_file_idempotent [of view_v1 "ustr ''h1''" "ustr ''a.md''" empty_indexer
      no_faults "ustr ''x''" no_faults]
    index_file_idempotent [of view_v1 "ustr ''h1''" "ustr ''a.md''" synced_v1 no_faults]
  by (simp add: synced_v1_eq)
    (simp add: view_v1_def no_faults_def ustr_def is_scalar_def)

text \<open>
  C1, as amended. If reading the file, hashing it, computing its relative path, chunking
  its content or the insert into the collection fails, \<open>index_file\<close> leaves
  \<open>file_hashes\<close> and the metadata file unchanged. A failure while the old chunks are
  deleted is not such a step: \<open>remove_file_chunks\<close> catches it and returns with the
  collection as it was, and \<open>index_file\<close> goes on with the insert and records the new
  fingerprint in \<open>file_hashes\<close> and in the metadata file.
\<close>

theorem index_file_failure_sync_state:
  "(fv_read_text fv = Inl e \<or> fv_hash fv = Inl e \<or> fv_relative_path fv = Inl e
      \<or> (fv_read_text fv = Inr content \<and> chunk_content (fv_stem fv) content = Inl e)
      \<or> add_fails flt
     \<longrightarrow> file_hashes (index_file fv flt s) = file_hashes s
        \<and> metadata_file (index_file fv flt s) = metadata_file s)
   \<and> ((get_fails flt \<or> delete_fails flt) \<and> \<not> add_fails flt
       \<and> fv_suffix fv \<in> set [ustr ''.md'', ustr ''.markdown'']
       \<and> fv_read_text fv = Inr content \<and> list_all is_scalar content
       \<and> fv_hash fv = Inr h \<and> fv_relative_path fv = Inr rp
       \<and> map_of (file_hashes s) rp \<noteq> Some h
     \<longrightarrow> collection (remove_file_chunks flt rp s) = collection s
        \<and> file_hashes (index_file fv flt s) = AList.update rp h (file_hashes s)
        \<and> (save_fault flt = SaveOk \<longrightarrow>
             metadata_file (index_file fv flt s)
               = Some (json_dumps (AList.update rp h (file_hashes s)))))"
proof (intro conjI impI)
  assume "fv_read_text fv = Inl e \<or> fv_hash fv = Inl e \<or> fv_relative_path fv = Inl e
      \<or> (fv_read_text fv = Inr content \<and> chunk_content (fv_stem fv) content = Inl e)
      \<or> add_fails flt"
  then have "fv_read_text fv = Inl e \<or> fv_hash fv = Inl e \<or> fv_relative_path fv = Inl e
      \<or> (\<exists>content. fv_read_text fv = Inr content
            \<and> chunk_content (fv_stem fv) content = Inl e)
      \<or> add_fails flt"
    by blast
  from index_file_abort [OF this]
  show "file_hashes (index_file fv flt s) = file_hashes s"
    and "metadata_file (index_file fv flt s) = metadata_file s"
    by simp_all
next
  assume a: "(get_fails flt \<or> delete_fails flt) \<and> \<not> add_fails flt
       \<and> fv_suffix fv \<in> set [ustr ''.md'', ustr ''.markdown'']
       \<and> fv_read_text fv = Inr content \<and> list_all is_scalar content
       \<and> fv_hash fv = Inr h \<and> fv_relative_path fv = Inr rp
       \<and> map_of (file_hashes s) rp \<noteq> Some h"
  then show "collection (remove_file_chunks flt rp s) = collection s"
    by (simp add: remove_file_chunks_failed)
  from a have cc: "chunk_content (fv_stem fv) content
      = Inr ((fv_stem fv, 0, 0) # chunk_windows (utf8_encode content) 0)"
    by (simp add: chunk_content_Inr)
  from a have "fv_suffix fv \<in> set [ustr ''.md'', ustr ''.markdown'']"
    and "fv_read_text fv = Inr content" and "fv_hash fv = Inr h"
    and "fv_relative_path fv = Inr rp" and "map_of (file_hashes s) rp \<noteq> Some h"
    and "\<not> add_fails flt"
    by simp_all
  from index_file_run [OF this(1-5) cc this(6) refl refl]
  have r: "file_hashes (index_file fv flt s) = AList.update rp h (file_hashes s)
     \<and> (save_fault flt = SaveOk \<longrightarrow>
         metadata_file (index_file fv flt s)
           = Some (json_dumps (AList.update rp h (file_hashes s))))"
    by simp
  from r show "file_hashes (index_file fv flt s) = AList.update rp h (file_hashes s)" by simp
  assume "save_fault flt = SaveOk"
  with r show "metadata_file (index_file fv flt s)
      = Some (json_dumps (AList.update rp h (file_hashes s)))" by simp
qed

lemma valid_y: "list_all is_scalar (ustr ''y'')"
  by (simp add: ustr_def is_scalar_def)

lemma synced_v1_fields:
  "file_hashes synced_v1 = [(ustr ''a.md'', ustr ''h1'')]"
  "metadata_file synced_v1 = Some (json_dumps [(ustr ''a.md'', ustr ''h1'')])"
  "collection synced_v1 = rows_v1"
  "index_calls synced_v1 = [Add [ustr ''a.md_0'', ustr ''a.md_1'']]"
  by (simp_all add: synced_v1_eq)

lemma hashes_differ: "ustr ''h1'' \<noteq> ustr ''h2''"
  by (simp add: ustr_def)

lemma view_v2_run:
  assumes "\<not> add_fails flt"
  shows "file_hashes (index_file view_v2 flt synced_v1) = [(ustr ''a.md'', ustr ''h2'')]
    \<and> collection (index_file view_v2 flt synced_v1)
        = collection (remove_file_chunks flt (ustr ''a.md'') synced_v1)
          @ filter (\<lambda>r. rec_id r \<notin> set (map rec_id
                (collection (remove_file_chunks flt (ustr ''a.md'') synced_v1)))) rows_v2
    \<and> index_calls (index_file view_v2 flt synced_v1)
        = index_calls (remove_file_chunks flt (ustr ''a.md'') synced_v1)
          @ [Add [ustr ''a.md_0'', ustr ''a.md_1'']]
    \<and> (save_fault flt = SaveOk \<longrightarrow>
         metadata_file (index_file view_v2 flt synced_v1)
           = Some (json_dumps [(ustr ''a.md'', ustr ''h2'')]))"
proof -
  have sfx: "fv_suffix view_v2 \<in> set [ustr ''.md'', ustr ''.markdown'']"
    by (simp add: view_v2_def)
  have rd: "fv_read_text view_v2 = Inr (ustr ''y'')" by (simp add: view_v2_def)
  have hs: "fv_hash view_v2 = Inr (ustr ''h2'')" by (simp add: view_v2_def)
  have rp: "fv_relative_path view_v2 = Inr (ustr ''a.md'')" by (simp add: view_v2_def)
  have ne: "map_of (file_hashes synced_v1) (ustr ''a.md'') \<noteq> Some (ustr ''h2'')"
    using hashes_differ by (simp add: synced_v1_fields)
  have cc: "chunk_content (fv_stem view_v2) (ustr ''y'')
      = Inr [(ustr ''a'', 0, 0), (ustr ''y'', 0, 1)]"
    by (simp add: view_v2_def chunk_content_y)
  have s1: "remove_file_chunks flt (ustr ''a.md'') synced_v1
      = (if map_of (file_hashes synced_v1) (ustr ''a.md'') \<noteq> None
         then remove_file_chunks flt (ustr ''a.md'') synced_v1 else synced_v1)"
    by (simp add: synced_v1_fields)
  have rows: "rows_v2 = build_rows (ustr ''a.md'') (fv_stem view_v2) (fv_str view_v2)
      [(ustr ''a'', 0, 0), (ustr ''y'', 0, 1)]"
    by (simp add: rows_v2_def view_v2_def)
  have upd: "AList.update (ustr ''a.md'') (ustr ''h2'') (file_hashes synced_v1)
      = [(ustr ''a.md'', ustr ''h2'')]"
    by (simp add: synced_v1_fields)
  from index_file_run [OF sfx rd hs rp ne cc assms s1 rows]
  show ?thesis unfolding upd rows_ids by simp
qed

lemma resync_delete_fails:
  "file_hashes (index_file view_v2 delete_faults synced_v1) = [(ustr ''a.md'', ustr ''h2'')]
   \<and> collection (index_file view_v2 delete_faults synced_v1) = rows_v1
   \<and> index_calls (index_file view_v2 delete_faults synced_v1)
       = [Add [ustr ''a.md_0'', ustr ''a.md_1''], Add [ustr ''a.md_0'', ustr ''a.md_1'']]
   \<and> metadata_file (index_file view_v2 delete_faults synced_v1)
       = Some (json_dumps [(ustr ''a.md'', ustr ''h2'')])"
proof -
  have rm: "remove_file_chunks delete_faults (ustr ''a.md'') synced_v1 = synced_v1"
    by (rule remove_file_chunks_failed) (simp add: delete_faults_def)
  have e: "map rec_id rows_v1 = map rec_id rows_v2" by (simp add: rows_ids)
  have skip: "filter (\<lambda>r. rec_id r \<notin> set (map rec_id rows_v1)) rows_v2 = []"
    unfolding e by (simp add: filter_empty_conv)
  have "\<not> add_fails delete_faults" and "save_fault delete_faults = SaveOk"
    by (simp_all add: delete_faults_def)
  from view_v2_run [OF this(1)] this(2) skip show ?thesis
    unfolding rm synced_v1_fields by simp
qed

text \<open>
  The claim C1 as stated fails when the deletion of the old chunks fails: the file
  \<open>a.md\<close>, synced with content \<open>x\<close> and hash \<open>h1\<close>, is synced again with content
  \<open>y\<close> and hash \<open>h2\<close> while \<open>collection.delete\<close> raises. The new fingerprint is
  recorded in \<open>file_hashes\<close> and in the metadata file, and the collection still holds
  the rows of the old content.
\<close>

theorem index_file_failure_counterexample:
  "delete_fails delete_faults
   \<and> map_of (file_hashes synced_v1) (ustr ''a.md'') = Some (ustr ''h1'')
   \<and> map_of (file_hashes (index_file view_v2 delete_faults synced_v1)) (ustr ''a.md'')
       = Some (ustr ''h2'')
   \<and> metadata_file (index_file view_v2 delete_faults synced_v1)
       = Some (json_dumps [(ustr ''a.md'', ustr ''h2'')])
   \<and> collection (index_file view_v2 delete_faults synced_v1) = collection synced_v1
   \<and> ustr ''h1'' \<noteq> ustr ''h2''"
  using resync_delete_fails
  by (simp add: synced_v1_eq delete_faults_def) (simp add: ustr_def)

theorem index_file_failure_sync_state_witness:
  "file_hashes (index_file view_v2 add_faults synced_v1) = file_hashes synced_v1
   \<and> metadata_file (index_file view_v2 add_faults synced_v1) = metadata_file synced_v1
   \<and> file_hashes (index_file view_v2 delete_faults synced_v1) = [(ustr ''a.md'', ustr ''h2'')]"
  using index_file_failure_sync_state [of view_v2 IndexError "ustr ''y''" add_faults synced_v1
      "ustr ''h2''" "ustr ''a.md''"]
    index_file_failure_sync_state [of view_v2 IndexError "ustr ''y''" delete_faults synced_v1
      "ustr ''h2''" "ustr ''a.md''"]
  by (simp add: add_faults_def delete_faults_def valid_y)
    (simp add: view_v2_def synced_v1_eq ustr_def)

lemma add_fresh_rows:
  assumes "\<forall>r\<in>set rows. md_file_path (rec_metadata r) \<noteq> fp" and "ids_wellformed rows"
  shows "filter (\<lambda>r. rec_id r \<notin> set (map rec_id rows)) (build_rows fp t f chunks)
       = build_rows fp t f chunks"
proof -
  have "rec_id r \<notin> set (map rec_id rows)" if r: "r \<in> set (build_rows fp t f chunks)" for r
  proof
    assume "rec_id r \<in> set (map rec_id rows)"
    then obtain r' where r': "r' \<in> set rows" "rec_id r' = rec_id r" by auto
    from r build_rows_wellformed [of fp t f chunks] build_rows_file_path [OF r]
    have "rec_id r = make_chunk_id fp (md_chunk_index (rec_metadata r))"
      by (auto simp: ids_wellformed_def list_all_iff)
    moreover from assms(2) r'(1)
    have "rec_id r' = make_chunk_id (md_file_path (rec_metadata r')) (md_chunk_index (rec_metadata r'))"
      by (auto simp: ids_wellformed_def list_all_iff)
    ultimately have "md_file_path (rec_metadata r') = fp"
      using r'(2) by (simp add: make_chunk_id_eq_iff)
    with assms(1) r'(1) show False by blast
  qed
  then show ?thesis by (simp add: filter_id_conv)
qed

text \<open>
  C3, as amended. A document with a stored fingerprint and at least one row in the
  collection, whose content hash has changed, is synced without a fault: the call makes
  exactly one \<open>delete\<close> with the ids of the document's old rows and then exactly one
  \<open>add\<close> with the ids of the new chunks; afterwards the rows of the document are
  exactly the rows built from the new chunks, the rows of other documents are untouched,
  and the new fingerprint is stored. (The ids of every stored row are assumed to have
  the form that \<open>index_file\<close> gives them.) The new ids are \<open>document_id_0\<close>,
  \<open>document_id_1\<close>, ... again, so they are not disjoint from the old ones.
\<close>

theorem index_file_replaces_chunks:
  assumes "fv_suffix fv \<in> set [ustr ''.md'', ustr ''.markdown'']"
    and "fv_read_text fv = Inr content"
    and "chunk_content (fv_stem fv) content = Inr chunks"
    and "fv_hash fv = Inr h" and "fv_relative_path fv = Inr rp"
    and "map_of (file_hashes s) rp = Some old" and "old \<noteq> h"
    and "\<not> get_fails flt" and "\<not> delete_fails flt" and "\<not> add_fails flt"
    and "ids_wellformed (collection s)" and "rows_of rp (collection s) \<noteq> []"
  shows "index_calls (index_file fv flt s)
       = index_calls s @ [Delete (map rec_id (rows_of rp (collection s))),
                          Add (map (make_chunk_id rp) [0..<length chunks])]
    \<and> rows_of rp (collection (index_file fv flt s))
       = build_rows rp (fv_stem fv) (fv_str fv) chunks
    \<and> filter (\<lambda>r. md_file_path (rec_metadata r) \<noteq> rp) (collection (index_file fv flt s))
       = filter (\<lambda>r. md_file_path (rec_metadata r) \<noteq> rp) (collection s)
    \<and> map_of (file_hashes (index_file fv flt s)) rp = Some h"
proof -
  let ?others = "filter (\<lambda>r. md_file_path (rec_metadata r) \<noteq> rp) (collection s)"
  let ?rows = "build_rows rp (fv_stem fv) (fv_str fv) chunks"
  have ne: "map_of (file_hashes s) rp \<noteq> Some h" using assms(6,7) by simp
  have s1: "remove_file_chunks flt rp s
      = (if map_of (file_hashes s) rp \<noteq> None then remove_file_chunks flt rp s else s)"
    using assms(6) by simp
  have rm: "remove_file_chunks flt rp s =
     s\<lparr>collection := ?others,
       index_calls := index_calls s @ [Delete (map rec_id (rows_of rp (collection s)))]\<rparr>"
    using remove_file_chunks_ok [OF assms(8,9,12)] delete_own_rows [OF assms(11), of rp]
    by simp
  have wf: "ids_wellformed ?others"
    using assms(11) by (auto simp: ids_wellformed_def list_all_iff)
  have fresh: "filter (\<lambda>r. rec_id r \<notin> set (map rec_id ?others)) ?rows = ?rows"
    by (rule add_fresh_rows [OF _ wf]) simp
  from index_file_run [OF assms(1,2,4,5) ne assms(3,10) s1 refl]
  have run: "file_hashes (index_file fv flt s) = AList.update rp h (file_hashes s)"
    "collection (index_file fv flt s) = ?others @ ?rows"
    "index_calls (index_file fv flt s)
       = index_calls s @ [Delete (map rec_id (rows_of rp (collection s))), Add (map rec_id ?rows)]"
    unfolding rm using fresh by simp_all
  have "rows_of rp (?others @ ?rows) = ?rows"
    using rows_of_build_rows [of rp "fv_stem fv" "fv_str fv" chunks]
    by (simp add: rows_of_def)
  moreover have "filter (\<lambda>r. md_file_path (rec_metadata r) \<noteq> rp) (?others @ ?rows) = ?others"
    by (simp add: build_rows_file_path)
  ultimately show ?thesis
    unfolding run by (simp add: enumerate_rows_ids map_of_update_same)
qed

lemma resync_ok:
  "index_calls (index_file view_v2 no_faults synced_v1)
       = [Add [ustr ''a.md_0'', ustr ''a.md_1''], Delete [ustr ''a.md_0'', ustr ''a.md_1''],
          Add [ustr ''a.md_0'', ustr ''a.md_1'']]
   \<and> collection (index_file view_v2 no_faults synced_v1) = rows_v2"
proof -
  have f: "\<not> get_fails no_faults" "\<not> delete_fails no_faults" "\<not> add_fails no_faults"
    by (simp_all add: no_faults_def)
  have ne: "rows_of (ustr ''a.md'') (collection synced_v1) \<noteq> []"
    by (simp add: synced_v1_fields rows_of_rows) (simp add: rows_v1_def build_rows_def)
  have rm: "remove_file_chunks no_faults (ustr ''a.md'') synced_v1 =
     synced_v1\<lparr>collection := [],
       index_calls := index_calls synced_v1 @ [Delete [ustr ''a.md_0'', ustr ''a.md_1'']]\<rparr>"
  proof -
    have del: "filter (\<lambda>r. rec_id r \<notin> set (map rec_id (rows_of (ustr ''a.md'')
        (collection synced_v1)))) (collection synced_v1) = []"
      by (simp add: synced_v1_fields rows_of_rows filter_empty_conv)
    from remove_file_chunks_ok [OF f(1,2) ne, unfolded del] show ?thesis
      by (simp add: synced_v1_fields rows_of_rows rows_ids)
  qed
  from view_v2_run [OF f(3)] show ?thesis
    unfolding rm by (simp add: synced_v1_fields)
qed

text \<open>
  The claim C3 as stated fails in its last part: ids are built from the document id and
  the chunk index alone, so after \<open>a.md\<close> has changed from \<open>x\<close> to \<open>y\<close> its rows
  carry the same ids as before.
\<close>

theorem index_file_replaces_chunks_counterexample:
  "map rec_id (rows_of (ustr ''a.md'') (collection synced_v1))
     = [ustr ''a.md_0'', ustr ''a.md_1'']
   \<and> map rec_id (rows_of (ustr ''a.md'') (collection (index_file view_v2 no_faults synced_v1)))
     = [ustr ''a.md_0'', ustr ''a.md_1'']
   \<and> fv_read_text view_v1 = Inr (ustr ''x'') \<and> fv_read_text view_v2 = Inr (ustr ''y'')
   \<and> ustr ''x'' \<noteq> ustr ''y''"
  using resync_ok
  by (simp add: synced_v1_fields rows_of_rows rows_ids view_v1_def view_v2_def)
    (simp add: ustr_def)

theorem index_file_replaces_chunks_witness:
  "index_calls (index_file view_v2 no_faults synced_v1)
     = index_calls synced_v1 @ [Delete [ustr ''a.md_0'', ustr ''a.md_1''],
                                Add [ustr ''a.md_0'', ustr ''a.md_1'']]
   \<and> map rec_document (rows_of (ustr ''a.md'') (collection (index_file view_v2 no_faults synced_v1)))
     = [ustr ''a'', ustr ''y'']"
proof -
  have sfx: "fv_suffix view_v2 \<in> set [ustr ''.md'', ustr ''.markdown'']"
    by (simp add: view_v2_def)
  have rd: "fv_read_text view_v2 = Inr (ustr ''y'')" by (simp add: view_v2_def)
  have hs: "fv_hash view_v2 = Inr (ustr ''h2'')" by (simp add: view_v2_def)
  have rp: "fv_relative_path view_v2 = Inr (ustr ''a.md'')" by (simp add: view_v2_def)
  have cc: "chunk_content (fv_stem view_v2) (ustr ''y'')
      = Inr [(ustr ''a'', 0, 0), (ustr ''y'', 0, 1)]"
    by (simp add: view_v2_def chunk_content_y)
  have old: "map_of (file_hashes synced_v1) (ustr ''a.md'') = Some (ustr ''h1'')"
    by (simp add: synced_v1_fields)
  have f: "\<not> get_fails no_faults" "\<not> delete_fails no_faults" "\<not> add_fails no_faults"
    by (simp_all add: no_faults_def)
  have wf: "ids_wellformed (collection synced_v1)"
    by (simp add: synced_v1_fields rows_v1_def build_rows_wellformed)
  have ne: "rows_of (ustr ''a.md'') (collection synced_v1) \<noteq> []"
    by (simp add: synced_v1_fields rows_of_rows) (simp add: rows_v1_def build_rows_def)
  from index_file_replaces_chunks [OF sfx rd cc hs rp old hashes_differ f wf ne]
  show ?thesis
    by (simp add: synced_v1_fields rows_of_rows rows_ids)
      (simp add: view_v2_def build_rows_def make_chunk_id_def str_nat.simps ustr_def)
qed


section \<open>Properties of writing the metadata file\<close>

lemma json_items_nonempty: "c \<in> set (json_items first dct) \<Longrightarrow> c \<noteq> []"
  by (induction first dct rule: json_items.induct)
    (auto simp: json_string_def ustr_def split: if_splits)

lemma json_dump_chunks_nonempty: "c \<in> set (json_dump_chunks dct) \<Longrightarrow> c \<noteq> []"
  by (auto simp: json_dump_chunks_def ustr_def dest: json_items_nonempty split: if_splits)

lemma concat_take_strict_prefix:
  assumes "k < length xss" and "\<forall>xs\<in>set xss. xs \<noteq> []"
  shows "strict_prefix (concat (take k xss)) (concat xss)"
proof -
  have "drop k xss \<noteq> []" using assms(1) by simp
  then obtain y ys where d: "drop k xss = y # ys" by (cases "drop k xss") auto
  then have "y \<in> set xss" by (metis in_set_dropD list.set_intros(1))
  with assms(2) have "y \<noteq> []" by blast
  with d have ne: "concat (drop k xss) \<noteq> []" by simp
  have "concat xss = concat (take k xss) @ concat (drop k xss)"
    by (metis append_take_drop_id concat_append)
  with ne show ?thesis by (auto simp: strict_prefix_def prefix_def)
qed

lemma json_dumps_old:
  "json_dumps [(ustr ''a.md'', ustr ''h1''), (ustr ''b.md'', ustr ''g1'')] =
     [123, 10, 32, 32, 34, 97, 46, 109, 100, 34, 58, 32, 34, 104, 49, 34, 44, 10, 32, 32,
      34, 98, 46, 109, 100, 34, 58, 32, 34, 103, 49, 34, 10, 125]"
  by (simp add: json_dumps_def json_dump_chunks_def json_string_def json_escape_char_def ustr_def)

lemma written_two_notes:
  "metadata_file_written two_notes 0 = []"
  "metadata_file_written two_notes 3 = [123, 10, 32, 32, 34, 97, 46, 109, 100, 34]"
  by (simp_all add: metadata_file_written_def two_notes_def json_dump_chunks_def
      json_string_def json_escape_char_def ustr_def numeral_3_eq_3)

lemma closes_append:
  "closes (a @ b) = (closes a \<or> closes b \<or> (a \<noteq> [] \<and> last a = 10 \<and> b \<noteq> [] \<and> hd b = 125))"
proof (induction a)
  case Nil
  then show ?case by simp
next
  case (Cons x a)
  note IH = Cons.IH
  show ?case
  proof (cases a)
    case Nil
    then show ?thesis by (cases b) auto
  next
    case (Cons y r)
    with IH show ?thesis by auto
  qed
qed

lemma closes_no_newline: "10 \<notin> set a \<Longrightarrow> \<not> closes a"
  by (induction a rule: closes.induct) auto

lemma hex_digit_no_newline: "hex_digit d \<noteq> 10" "10 \<noteq> hex_digit d"
  by (simp_all add: hex_digit_def)

lemma u_escape_no_newline: "10 \<notin> set (u_escape n)"
  unfolding u_escape_def by (simp add: hex_digit_no_newline)

lemma json_escape_char_no_newline: "10 \<notin> set (json_escape_char c)"
  unfolding json_escape_char_def by (simp add: u_escape_no_newline)

lemma json_string_no_newline: "10 \<notin> set (json_string s)"
  using json_escape_char_no_newline by (auto simp: json_string_def)

lemma json_string_last: "json_string s \<noteq> [] \<and> last (json_string s) = 34"
  by (simp add: json_string_def)

lemma open_append:
  assumes "\<not> closes a \<and> (a = [] \<or> last a \<noteq> 10)"
    and "\<not> closes b \<and> (b = [] \<or> last b \<noteq> 10)"
  shows "\<not> closes (a @ b) \<and> (a @ b = [] \<or> last (a @ b) \<noteq> 10)"
  using assms by (cases "b = []") (auto simp: closes_append)

lemma open_no_newline:
  assumes "10 \<notin> set a"
  shows "\<not> closes a \<and> (a = [] \<or> last a \<noteq> 10)"
proof -
  have "a = [] \<or> last a \<in> set a" by (cases a) simp_all
  with assms closes_no_newline [OF assms] show ?thesis by metis
qed

lemma separator_open:
  "\<not> closes (ustr '','' @ [10] @ ustr ''  '')
   \<and> (ustr '','' @ [10] @ ustr ''  '' = [] \<or> last (ustr '','' @ [10] @ ustr ''  '') \<noteq> 10)"
  by (simp add: ustr_def)

lemma json_items_open:
  "\<not> closes (concat (json_items first dct))
   \<and> (concat (json_items first dct) = [] \<or> last (concat (json_items first dct)) \<noteq> 10)"
proof (induction first dct rule: json_items.induct)
  case (1 first)
  then show ?case by simp
next
  case (2 first key val items)
  let ?rest = "concat (json_items False items)"
  have colon: "10 \<notin> set (ustr '': '')" by (simp add: ustr_def)
  note k = open_no_newline [OF json_string_no_newline [of key]]
  note c = open_no_newline [OF colon]
  note v = open_no_newline [OF json_string_no_newline [of val]]
  note item = open_append [OF k open_append [OF c open_append [OF v "2.IH"]]]
  have e1: "concat (json_items True ((key, val) # items))
      = json_string key @ ustr '': '' @ json_string val @ ?rest"
    by simp
  have e2: "concat (json_items False ((key, val) # items))
      = (ustr '','' @ [10] @ ustr ''  '') @ json_string key @ ustr '': '' @ json_string val @ ?rest"
    by simp
  show ?case
  proof (cases first)
    case True
    then have f: "first = True" by simp
    show ?thesis unfolding f e1 by (rule item)
  next
    case False
    then have f: "first = False" by simp
    show ?thesis unfolding f e2 by (rule open_append [OF separator_open item])
  qed
qed

lemma closes_Cons: "x \<noteq> 10 \<Longrightarrow> closes (x # ys) = closes ys"
  by (cases ys) auto

lemma closes_snoc_newline: "closes (ys @ [10]) = closes ys"
  by (simp add: closes_append)

lemma closes_extend: "closes p \<Longrightarrow> closes (p @ u)"
  by (simp add: closes_append)

lemma closes_strict_prefix:
  assumes "closes p" and "p @ v = Y @ [z]" and "v \<noteq> []"
  shows "closes Y"
proof -
  from assms(3) obtain u w where v: "v = u @ [w]" by (cases v rule: rev_cases) auto
  with assms(2) have "Y = p @ u" by simp
  with assms(1) show ?thesis by (simp add: closes_extend)
qed

lemma json_dumps_empty_dict: "json_dumps [] = [123, 125]"
  by (simp add: json_dumps_def json_dump_chunks_def ustr_def)

lemma json_dumps_nonempty_dict:
  assumes "dct \<noteq> []"
  shows "json_dumps dct = 123 # 10 # 32 # 32 # concat (json_items True dct) @ [10, 125]"
  using assms by (simp add: json_dumps_def json_dump_chunks_def ustr_def)

lemma json_dumps_snoc:
  "\<exists>Y. json_dumps dct = Y @ [125] \<and> \<not> closes Y"
proof (cases "dct = []")
  case True
  then show ?thesis by (intro exI [of _ "[123]"]) (simp add: json_dumps_empty_dict)
next
  case False
  let ?B = "concat (json_items True dct)"
  have "closes (123 # 10 # 32 # 32 # ?B @ [10]) = closes (?B @ [10])"
    by (simp add: closes_Cons)
  also have "\<dots> = closes ?B" by (rule closes_snoc_newline)
  finally have "\<not> closes (123 # 10 # 32 # 32 # ?B @ [10])"
    using json_items_open [of True dct] by simp
  moreover have "json_dumps dct = (123 # 10 # 32 # 32 # ?B @ [10]) @ [125]"
    by (simp add: json_dumps_nonempty_dict [OF False])
  ultimately show ?thesis by blast
qed

lemma json_dumps_closes: "dct \<noteq> [] \<Longrightarrow> closes (json_dumps dct)"
proof -
  assume a: "dct \<noteq> []"
  have "closes ((123 # 10 # 32 # 32 # concat (json_items True dct)) @ [10, 125])"
    by (subst closes_append) simp
  then show ?thesis by (simp add: json_dumps_nonempty_dict [OF a])
qed

lemma json_dumps_prefix_free:
  assumes "strict_prefix p (json_dumps dct)"
  shows "p \<noteq> json_dumps dct'"
proof
  assume eq: "p = json_dumps dct'"
  from assms obtain v where v: "json_dumps dct = p @ v" "v \<noteq> []"
    by (auto simp: strict_prefix_def prefix_def)
  show False
  proof (cases "dct' = []")
    case True
    then have p: "p = [123, 125]" using eq by (simp add: json_dumps_empty_dict)
    show False
    proof (cases "dct = []")
      case True
      with v p show False by (simp add: json_dumps_empty_dict)
    next
      case False
      from v(1) show False
        unfolding json_dumps_nonempty_dict [OF False] p by simp
    qed
  next
    case False
    then have cp: "closes p" using eq by (simp add: json_dumps_closes)
    from json_dumps_snoc [of dct] obtain Y where Y: "json_dumps dct = Y @ [125]" "\<not> closes Y"
      by blast
    from v(1) Y(1) have "p @ v = Y @ [125]" by simp
    from closes_strict_prefix [OF cp this v(2)] Y(2) show False by simp
  qed
qed

lemma written_strict_prefix:
  "k < length (json_dump_chunks (file_hashes s)) \<Longrightarrow>
     strict_prefix (metadata_file_written s k) (json_dumps (file_hashes s))"
  using concat_take_strict_prefix [of k "json_dump_chunks (file_hashes s)"]
    json_dump_chunks_nonempty [of _ "file_hashes s"]
  by (auto simp: metadata_file_written_def json_dumps_def)

lemma written_prefix: "prefix (metadata_file_written s k) (json_dumps (file_hashes s))"
proof -
  have "json_dumps (file_hashes s)
      = metadata_file_written s k @ concat (drop k (json_dump_chunks (file_hashes s)))"
    unfolding metadata_file_written_def json_dumps_def
    by (metis append_take_drop_id concat_append)
  then show ?thesis by (metis prefixI)
qed

lemma at_stop_strict_prefix:
  assumes "length (metadata_file_at_stop s k flushed) < length (json_dumps (file_hashes s))"
  shows "strict_prefix (metadata_file_at_stop s k flushed) (json_dumps (file_hashes s))"
proof -
  have "prefix (metadata_file_at_stop s k flushed) (metadata_file_written s k)"
    unfolding metadata_file_at_stop_def by (rule take_is_prefix)
  with written_prefix [of s k]
  have "prefix (metadata_file_at_stop s k flushed) (json_dumps (file_hashes s))"
    by (metis prefix_order.trans)
  with assms show ?thesis by (auto simp: strict_prefix_def)
qed


text \<open>
  C9, as amended. \<open>save_metadata\<close> rewrites the metadata file in place: there is no
  temporary file and no rename. A save that completes leaves exactly the serialization
  of \<open>file_hashes\<close>. A save in which a \<open>write\<close> raises after \<open>k\<close> pieces, with pieces
  still to come, raises with the file holding those \<open>k\<close> pieces only; and a process
  that stops between \<open>open\<close> and the end of the \<open>with\<close> block leaves the file holding
  what was flushed. In both cases the text that is left, if it is shorter than the new
  serialization, is a proper prefix of it and is not the serialization of any mapping:
  the previous content is gone, the entries of unrelated documents included.
\<close>

theorem save_metadata_in_place:
  "(save_fault flt = SaveOk \<longrightarrow>
      save_metadata flt s = Inr (s\<lparr>metadata_file := Some (json_dumps (file_hashes s))\<rparr>))
   \<and> (save_fault flt = WriteFails k \<and> k < length (json_dump_chunks (file_hashes s)) \<longrightarrow>
        save_metadata flt s
          = Inl (SaveError, s\<lparr>metadata_file := Some (metadata_file_written s k)\<rparr>)
      \<and> strict_prefix (metadata_file_written s k) (json_dumps (file_hashes s))
      \<and> (\<forall>dct. metadata_file_written s k \<noteq> json_dumps dct))
   \<and> (length (metadata_file_at_stop s k flushed) < length (json_dumps (file_hashes s)) \<longrightarrow>
        strict_prefix (metadata_file_at_stop s k flushed) (json_dumps (file_hashes s))
      \<and> (\<forall>dct. metadata_file_at_stop s k flushed \<noteq> json_dumps dct))"
proof (intro conjI impI)
  assume "save_fault flt = SaveOk"
  then show "save_metadata flt s = Inr (s\<lparr>metadata_file := Some (json_dumps (file_hashes s))\<rparr>)"
    by (simp add: save_metadata_def metadata_file_written_def json_dumps_def)
next
  assume a: "save_fault flt = WriteFails k \<and> k < length (json_dump_chunks (file_hashes s))"
  then show "save_metadata flt s
      = Inl (SaveError, s\<lparr>metadata_file := Some (metadata_file_written s k)\<rparr>)"
    by (simp add: save_metadata_def)
  from a written_strict_prefix [of k s]
  show sp: "strict_prefix (metadata_file_written s k) (json_dumps (file_hashes s))" by simp
  from json_dumps_prefix_free [OF sp]
  show "\<forall>dct. metadata_file_written s k \<noteq> json_dumps dct" by blast
next
  assume "length (metadata_file_at_stop s k flushed) < length (json_dumps (file_hashes s))"
  from at_stop_strict_prefix [OF this]
  show sp: "strict_prefix (metadata_file_at_stop s k flushed) (json_dumps (file_hashes s))" .
  from json_dumps_prefix_free [OF sp]
  show "\<forall>dct. metadata_file_at_stop s k flushed \<noteq> json_dumps dct" by blast
qed


lemma json_dumps_new:
  "json_dumps (file_hashes two_notes) =
     [123, 10, 32, 32, 34, 97, 46, 109, 100, 34, 58, 32, 34, 104, 50, 34, 44, 10, 32, 32,
      34, 98, 46, 109, 100, 34, 58, 32, 34, 103, 49, 34, 10, 125]"
  by (simp add: two_notes_def json_dumps_def json_dump_chunks_def json_string_def
      json_escape_char_def ustr_def)

lemma two_notes_chunks: "length (json_dump_chunks (file_hashes two_notes)) = 11"
  by (simp add: two_notes_def json_dump_chunks_def)


text \<open>
  The claim C9 as stated fails. With the entries of \<open>a.md\<close> and \<open>b.md\<close> on disk and a
  new fingerprint for \<open>a.md\<close> to save, a save whose fourth \<open>write\<close> raises leaves the
  text \<open>{\<close>, line break, two spaces, \<open>"a.md"\<close> in the file, and a process that stops
  after three writes, before anything has been flushed, leaves an empty file: the entry
  of the unrelated \<open>b.md\<close> is gone in both.
\<close>

theorem save_metadata_counterexample:
  "metadata_file two_notes =
     Some [123, 10, 32, 32, 34, 97, 46, 109, 100, 34, 58, 32, 34, 104, 49, 34, 44, 10, 32, 32,
           34, 98, 46, 109, 100, 34, 58, 32, 34, 103, 49, 34, 10, 125]
   \<and> save_metadata write_faults two_notes
       = Inl (SaveError,
              two_notes\<lparr>metadata_file := Some [123, 10, 32, 32, 34, 97, 46, 109, 100, 34]\<rparr>)
   \<and> metadata_file_at_stop two_notes 3 0 = []"
  using json_dumps_old written_two_notes
  by (simp add: save_metadata_def write_faults_def metadata_file_at_stop_def)
    (simp add: two_notes_def)


theorem save_metadata_in_place_witness:
  "save_metadata no_faults two_notes
     = Inr (two_notes\<lparr>metadata_file := Some (json_dumps (file_hashes two_notes))\<rparr>)
   \<and> save_metadata write_faults two_notes
       = Inl (SaveError, two_notes\<lparr>metadata_file := Some (metadata_file_written two_notes 3)\<rparr>)
   \<and> strict_prefix (metadata_file_written two_notes 3) (json_dumps (file_hashes two_notes))
   \<and> metadata_file_written two_notes 3
       \<noteq> json_dumps [(ustr ''a.md'', ustr ''h1''), (ustr ''b.md'', ustr ''g1'')]
   \<and> metadata_file_at_stop two_notes 3 0
       \<noteq> json_dumps [(ustr ''a.md'', ustr ''h1''), (ustr ''b.md'', ustr ''g1'')]"
proof -
  have l: "length (metadata_file_at_stop two_notes 3 0) < length (json_dumps (file_hashes two_notes))"
    by (simp add: metadata_file_at_stop_def json_dumps_new)
  from save_metadata_in_place [where s = two_notes and flt = no_faults]
  have ok: "save_metadata no_faults two_notes
     = Inr (two_notes\<lparr>metadata_file := Some (json_dumps (file_hashes two_notes))\<rparr>)"
    by (simp add: no_faults_def)
  from save_metadata_in_place [where s = two_notes and flt = write_faults and k = 3
      and flushed = 0] l
  have "save_metadata write_faults two_notes
       = Inl (SaveError, two_notes\<lparr>metadata_file := Some (metadata_file_written two_notes 3)\<rparr>)
      \<and> strict_prefix (metadata_file_written two_notes 3) (json_dumps (file_hashes two_notes))
      \<and> (\<forall>dct. metadata_file_written two_notes 3 \<noteq> json_dumps dct)
      \<and> (\<forall>dct. metadata_file_at_stop two_notes 3 0 \<noteq> json_dumps dct)"
    by (simp add: write_faults_def two_notes_chunks)
  with ok show ?thesis by blast
qed


section \<open>Properties of search\<close>

lemma score_step_distinct:
  "distinct (map fst fs) \<Longrightarrow> distinct (map fst (score_step h fs))"
  by (simp add: score_step_def Let_def distinct_update split: option.splits)

lemma fold_score_step_distinct:
  "distinct (map fst fs) \<Longrightarrow> distinct (map fst (fold score_step hits fs))"
  by (induction hits arbitrary: fs) (simp_all add: score_step_distinct)

lemma collect_file_scores_distinct: "distinct (map fst (collect_file_scores hits))"
  by (simp add: collect_file_scores_def fold_score_step_distinct)

lemma Min_insert_lower:
  assumes "finite A" and "(b::real) < a"
  shows "Min (insert a (insert b A)) = Min (insert b A)"
proof -
  have "Min (insert b A) \<le> b" using assms(1) by simp
  then show ?thesis using assms by (simp add: min_def)
qed

lemma Min_insert_not_lower:
  assumes "finite A" and "\<not> (b::real) < a"
  shows "Min (insert a (insert b A)) = Min (insert a A)"
proof -
  have le: "Min (insert a A) \<le> a" using assms(1) by simp
  have sw: "insert a (insert b A) = insert b (insert a A)" by auto
  have "Min (insert b (insert a A)) = min b (Min (insert a A))"
    using assms(1) by (intro Min_insert) simp_all
  with le assms(2) show ?thesis unfolding sw by (simp add: min_def)
qed

lemma fold_score_step_map_of:
  "map_of (fold score_step hits fs) fp =
     (case map_of fs fp of
        None \<Rightarrow> if matched_distances hits fp = [] then None
                else Some (Min (set (matched_distances hits fp)))
      | Some d \<Rightarrow> Some (Min (insert d (set (matched_distances hits fp)))))"
proof (induction hits arbitrary: fs)
  case Nil
  then show ?case by (simp add: matched_distances_def split: option.splits)
next
  case (Cons h hits)
  show ?case
  proof (cases "md_file_path (hit_metadata h) = fp")
    case False
    then have "map_of (score_step h fs) fp = map_of fs fp"
      by (simp add: score_step_def Let_def update_conv' split: option.splits)
    moreover from False have "matched_distances (h # hits) fp = matched_distances hits fp"
      by (simp add: matched_distances_def)
    ultimately show ?thesis using Cons.IH [of "score_step h fs"]
      by (simp split: option.splits)
  next
    case True
    then have md: "matched_distances (h # hits) fp = hit_distance h # matched_distances hits fp"
      by (simp add: matched_distances_def)
    show ?thesis
    proof (cases "map_of fs fp")
      case None
      with True have "map_of (score_step h fs) fp = Some (hit_distance h)"
        by (simp add: score_step_def Let_def update_conv')
      with None md show ?thesis using Cons.IH [of "score_step h fs"] by simp
    next
      case (Some d)
      show ?thesis
      proof (cases "hit_distance h < d")
        case lower: True
        let ?M = "Min (insert (hit_distance h) (set (matched_distances hits fp)))"
        have "?M \<le> hit_distance h" by simp
        with lower have m: "min d ?M = ?M" by linarith
        have "Min (insert d (insert (hit_distance h) (set (matched_distances hits fp))))
            = min d ?M"
          by (intro Min_insert) simp_all
        with m have tgt: "Min (insert d (set (matched_distances (h # hits) fp))) = ?M"
          unfolding md by simp
        from True Some lower have "map_of (score_step h fs) fp = Some (hit_distance h)"
          by (simp add: score_step_def Let_def update_conv')
        with Cons.IH [of "score_step h fs"]
        have "map_of (fold score_step (h # hits) fs) fp = Some ?M" by simp
        with Some tgt show ?thesis by (simp only: option.case)
      next
        case not_lower: False
        from Min_insert_not_lower [OF _ not_lower, of "set (matched_distances hits fp)"]
        have tgt: "Min (insert d (set (matched_distances (h # hits) fp)))
            = Min (insert d (set (matched_distances hits fp)))"
          unfolding md by simp
        from True Some not_lower have "score_step h fs = fs"
          by (simp add: score_step_def Let_def)
        with Cons.IH [of fs] Some
        have "map_of (fold score_step (h # hits) fs) fp
            = Some (Min (insert d (set (matched_distances hits fp))))"
          by simp
        with Some tgt show ?thesis by (simp only: option.case)
      qed
    qed
  qed
qed

lemma collect_file_scores_member:
  assumes "(fp, d) \<in> set (collect_file_scores hits)"
  shows "matched_distances hits fp \<noteq> [] \<and> d = Min (set (matched_distances hits fp))"
proof -
  from assms collect_file_scores_distinct [of hits]
  have "map_of (collect_file_scores hits) fp = Some d" by simp
  then show ?thesis
    unfolding collect_file_scores_def fold_score_step_map_of
    by (simp split: if_splits)
qed

lemma set_slice_to: "set (slice_to xs n) \<subseteq> set xs"
  by (auto simp: slice_to_def dest: in_set_takeD)

lemma sorted_files_member:
  "(fp, d) \<in> set (sorted_files hits limit) \<Longrightarrow>
     matched_distances hits fp \<noteq> [] \<and> d = Min (set (matched_distances hits fp))"
  using set_slice_to [of "sort_key snd (collect_file_scores hits)" limit]
  by (intro collect_file_scores_member) (auto simp: sorted_files_def)

lemma sorted_files_distinct: "distinct (map fst (sorted_files hits limit))"
proof -
  have "distinct (map fst (sort_key snd (collect_file_scores hits)))"
    using collect_file_scores_distinct [of hits]
    by (metis distinct_map distinct_sort set_sort)
  then show ?thesis
    by (simp add: sorted_files_def slice_to_def take_map [symmetric])
qed

lemma sorted_files_sorted: "sorted (map snd (sorted_files hits limit))"
  by (simp add: sorted_files_def slice_to_def take_map [symmetric] sorted_wrt_take)

lemma sorted_files_length: "0 \<le> limit \<Longrightarrow> length (sorted_files hits limit) \<le> nat limit"
  by (simp add: sorted_files_def slice_to_def)

lemma collect_articles_Inr:
  "collect_articles ix files = Inr arts \<Longrightarrow>
     arts = map (\<lambda>(fp, d). reconstruct fp d (file_rows ix fp))
              (filter (\<lambda>(fp, d). file_rows ix fp \<noteq> []) files)
     \<and> (\<forall>(fp, d)\<in>set files. vi_get ix fp = Inr (file_rows ix fp))"
proof (induction ix files arbitrary: arts rule: collect_articles.induct)
  case (1 ix)
  then show ?case by simp
next
  case (2 ix file_path best_distance sorted_files)
  from "2.prems" obtain rows where g: "vi_get ix file_path = Inr rows"
    by (auto split: sum.splits)
  then have fr: "file_rows ix file_path = rows" by (simp add: file_rows_def)
  show ?case
  proof (cases "rows = []")
    case True
    with "2.prems" g have "collect_articles ix sorted_files = Inr arts" by simp
    from "2.IH"(1) [OF g True this] True g fr show ?thesis by simp
  next
    case False
    with "2.prems" g obtain rest where r: "collect_articles ix sorted_files = Inr rest"
      and a: "arts = reconstruct file_path best_distance rows # rest"
      by (auto split: sum.splits)
    from "2.IH"(2) [OF g False r] False g fr a show ?thesis by simp
  qed
qed

lemma collect_articles_Inl:
  "(fp, d) \<in> set files \<Longrightarrow> vi_get ix fp = Inl e \<Longrightarrow> \<exists>e'. collect_articles ix files = Inl e'"
  by (induction ix files rule: collect_articles.induct) (auto split: sum.splits)

lemma search_full_cases:
  assumes "search_full ix q limit = Inr arts"
  shows "arts = []
    \<or> (\<exists>hits. vi_query ix q (limit * 3) = Inr hits \<and> hits \<noteq> []
          \<and> collect_articles ix (sorted_files hits limit) = Inr arts)"
  using assms
  by (auto simp: search_full_def search_full_try_def except_return_empty_def
      split: sum.splits if_splits)

lemma sorted_key_zero_prefix:
  "sorted (map f ys) \<Longrightarrow>
     ys = filter (\<lambda>y. f y = (0::nat)) ys @ filter (\<lambda>y. f y \<noteq> 0) ys"
proof (induction ys)
  case Nil
  then show ?case by simp
next
  case (Cons y ys)
  show ?case
  proof (cases "f y = 0")
    case True
    with Cons show ?thesis by simp
  next
    case False
    with Cons.prems have "\<forall>z\<in>set ys. f z \<noteq> 0" by fastforce
    then have "filter (\<lambda>y. f y = 0) ys = []" and "filter (\<lambda>y. f y \<noteq> 0) ys = ys"
      by (simp_all add: filter_empty_conv filter_id_conv)
    with False show ?thesis by simp
  qed
qed

lemma tl_sort_key_title:
  assumes "length (filter (\<lambda>c. f c = (0::nat)) rows) = 1"
  shows "tl (sort_key f rows) = filter (\<lambda>c. f c \<noteq> 0) (sort_key f rows)"
proof -
  let ?ys = "sort_key f rows"
  have "filter (\<lambda>c. f c = 0) ?ys = filter (\<lambda>c. f c = 0) rows"
    by (rule sort_key_stable)
  with assms obtain z where z: "filter (\<lambda>c. f c = 0) ?ys = [z]"
    by (metis One_nat_def length_0_conv length_Suc_conv)
  have "?ys = filter (\<lambda>c. f c = 0) ?ys @ filter (\<lambda>c. f c \<noteq> 0) ?ys"
    by (rule sorted_key_zero_prefix) simp
  with z have "?ys = z # filter (\<lambda>c. f c \<noteq> 0) ?ys" by simp
  then show ?thesis by (metis list.sel(3))
qed

text \<open>
  C6. For every query string and every limit (a count, \<open>0 \<le> limit\<close>), the list that
  \<open>search_full\<close> returns has at most \<open>limit\<close> elements, their \<open>file_path\<close>s are
  pairwise distinct, and they are ordered by \<open>relevance_score\<close> descending, which is the
  order of the least distance among each document's matched chunks, ascending.
\<close>

theorem search_full_ranked:
  assumes "0 \<le> limit" and "search_full ix q limit = Inr arts"
  shows "length arts \<le> nat limit
    \<and> distinct (map art_file_path arts)
    \<and> sorted_wrt (\<lambda>a b. art_relevance_score a \<ge> art_relevance_score b) arts
    \<and> (\<forall>hits. vi_query ix q (limit * 3) = Inr hits \<longrightarrow>
          sorted (map (\<lambda>a. Min (set (matched_distances hits (art_file_path a)))) arts))"
proof -
  from search_full_cases [OF assms(2)] show ?thesis
  proof
    assume "arts = []"
    then show ?thesis by simp
  next
    assume "\<exists>hits. vi_query ix q (limit * 3) = Inr hits \<and> hits \<noteq> []
          \<and> collect_articles ix (sorted_files hits limit) = Inr arts"
    then obtain hits where q: "vi_query ix q (limit * 3) = Inr hits"
      and c: "collect_articles ix (sorted_files hits limit) = Inr arts"
      by blast
    let ?files = "filter (\<lambda>(fp, d). file_rows ix fp \<noteq> []) (sorted_files hits limit)"
    from collect_articles_Inr [OF c]
    have arts: "arts = map (\<lambda>(fp, d). reconstruct fp d (file_rows ix fp)) ?files"
      by simp
    have paths: "map art_file_path arts = map fst ?files"
      unfolding arts by (simp add: reconstruct_def Let_def split_def)
    have scores: "map art_relevance_score arts = map (\<lambda>p. 1 - snd p) ?files"
      unfolding arts by (simp add: reconstruct_def Let_def split_def)
    have len: "length arts \<le> nat limit"
    proof -
      have "length arts \<le> length (sorted_files hits limit)"
        unfolding arts by simp
      with sorted_files_length [OF assms(1), of hits] show ?thesis by simp
    qed
    have dist: "distinct (map art_file_path arts)"
      unfolding paths using sorted_files_distinct [of hits limit]
      by (rule distinct_map_filter)
    have srt: "sorted (map snd ?files)"
      using sorted_files_sorted [of hits limit]
      by (simp add: sorted_wrt_map sorted_wrt_filter)
    then have "sorted_wrt (\<lambda>x y. y \<le> x) (map art_relevance_score arts)"
      unfolding scores by (simp add: sorted_wrt_map)
    then have rel: "sorted_wrt (\<lambda>a b. art_relevance_score a \<ge> art_relevance_score b) arts"
      by (simp add: sorted_wrt_map)
    have mins: "map (\<lambda>a. Min (set (matched_distances hits (art_file_path a)))) arts
        = map snd ?files"
    proof -
      have "map (\<lambda>a. Min (set (matched_distances hits (art_file_path a)))) arts
          = map (\<lambda>p. Min (set (matched_distances hits (fst p)))) ?files"
        unfolding arts by (simp add: reconstruct_def Let_def split_def)
      also have "\<dots> = map snd ?files"
      proof (rule map_cong [OF refl])
        fix p assume "p \<in> set ?files"
        then have "(fst p, snd p) \<in> set (sorted_files hits limit)" by simp
        from sorted_files_member [OF this]
        show "Min (set (matched_distances hits (fst p))) = snd p" by simp
      qed
      finally show ?thesis .
    qed
    from len dist rel srt q show ?thesis by (simp add: mins)
  qed
qed

text \<open>
  C7. For every article returned by \<open>search_full\<close>: the rows of its document were
  fetched and are not empty; its \<open>content\<close> is the plain concatenation of the texts of
  these rows sorted by \<open>chunk_index\<close> without the first one, which, when the document has
  exactly one row of index 0 (its title chunk), is the concatenation in index order of
  the texts of all rows but the title chunk, overlaps included; and its
  \<open>relevance_score\<close> is 1 minus the least distance among the matches of its document.
\<close>

theorem search_full_reconstruction:
  assumes "vi_query ix q (limit * 3) = Inr hits"
    and "search_full ix q limit = Inr arts" and "a \<in> set arts"
  shows "vi_get ix (art_file_path a) = Inr (file_rows ix (art_file_path a))
    \<and> file_rows ix (art_file_path a) \<noteq> []
    \<and> art_content a
        = concat (map rec_document
            (tl (sort_key (\<lambda>c. md_chunk_index (rec_metadata c))
                  (file_rows ix (art_file_path a)))))
    \<and> (length (filter (\<lambda>c. md_chunk_index (rec_metadata c) = 0)
                  (file_rows ix (art_file_path a))) = 1
        \<longrightarrow> art_content a
            = concat (map rec_document
                (filter (\<lambda>c. md_chunk_index (rec_metadata c) \<noteq> 0)
                   (sort_key (\<lambda>c. md_chunk_index (rec_metadata c))
                      (file_rows ix (art_file_path a))))))
    \<and> matched_distances hits (art_file_path a) \<noteq> []
    \<and> art_relevance_score a = 1 - Min (set (matched_distances hits (art_file_path a)))"
proof -
  from search_full_cases [OF assms(2)] assms(1,3)
  have c: "collect_articles ix (sorted_files hits limit) = Inr arts" by auto
  from collect_articles_Inr [OF c] assms(3)
  obtain fp d where m: "(fp, d) \<in> set (sorted_files hits limit)"
    and ne: "file_rows ix fp \<noteq> []"
    and a: "a = reconstruct fp d (file_rows ix fp)"
    and g: "vi_get ix fp = Inr (file_rows ix fp)"
    by auto
  have p: "art_file_path a = fp" unfolding a by (simp add: reconstruct_def Let_def)
  have content: "art_content a
      = concat (map rec_document
          (tl (sort_key (\<lambda>c. md_chunk_index (rec_metadata c)) (file_rows ix fp))))"
    unfolding a by (simp add: reconstruct_def Let_def)
  have score: "art_relevance_score a = 1 - d"
    unfolding a by (simp add: reconstruct_def Let_def)
  from sorted_files_member [OF m] p g ne content score
  show ?thesis
    using tl_sort_key_title [of "\<lambda>c. md_chunk_index (rec_metadata c)" "file_rows ix fp"]
    by simp
qed

text \<open>
  C8. \<open>search_snippets\<close> and \<open>search_full\<close> always return a list and never an
  exception. If the similarity query raises or returns no match, each returns the empty
  list; so does \<open>search_full\<close> if the fetch of the rows of a selected document raises.
\<close>

theorem search_degrades_to_empty:
  "(\<exists>r. search_snippets ix q limit = Inr r) \<and> (\<exists>r. search_full ix q limit = Inr r)
   \<and> (vi_query ix q limit = Inl e \<or> vi_query ix q limit = Inr []
        \<longrightarrow> search_snippets ix q limit = Inr [])
   \<and> (vi_query ix q (limit * 3) = Inl e \<or> vi_query ix q (limit * 3) = Inr []
        \<longrightarrow> search_full ix q limit = Inr [])
   \<and> (vi_query ix q (limit * 3) = Inr hits \<and> (fp, d) \<in> set (sorted_files hits limit)
        \<and> vi_get ix fp = Inl e
        \<longrightarrow> search_full ix q limit = Inr [])"
proof -
  have "search_full ix q limit = Inr []"
    if "vi_query ix q (limit * 3) = Inr hits" "(fp, d) \<in> set (sorted_files hits limit)"
      "vi_get ix fp = Inl e"
  proof -
    from collect_articles_Inl [OF that(2,3)] obtain e'
      where "collect_articles ix (sorted_files hits limit) = Inl e'" by blast
    with that(1) show ?thesis
      by (simp add: search_full_def search_full_try_def except_return_empty_def)
  qed
  then show ?thesis
    by (auto simp: search_snippets_def search_snippets_try_def search_full_def
        search_full_try_def except_return_empty_def split: sum.splits)
qed

lemma rows_a_eq:
  "rows_a =
    [\<lparr>rec_id = ustr ''a.md_0'', rec_document = ustr ''a'',
      rec_metadata = \<lparr>md_file_path = ustr ''a.md'', md_title = ustr ''a'', md_chunk_index = 0,
        md_start_pos = 0, md_end_pos = 0, md_is_title_chunk = True,
        md_full_path = ustr ''/v/a.md''\<rparr>\<rparr>,
     \<lparr>rec_id = ustr ''a.md_1'', rec_document = ustr ''hello '',
      rec_metadata = \<lparr>md_file_path = ustr ''a.md'', md_title = ustr ''a'', md_chunk_index = 1,
        md_start_pos = 0, md_end_pos = 6, md_is_title_chunk = False,
        md_full_path = ustr ''/v/a.md''\<rparr>\<rparr>,
     \<lparr>rec_id = ustr ''a.md_2'', rec_document = ustr ''lo world'',
      rec_metadata = \<lparr>md_file_path = ustr ''a.md'', md_title = ustr ''a'', md_chunk_index = 2,
        md_start_pos = 3, md_end_pos = 11, md_is_title_chunk = False,
        md_full_path = ustr ''/v/a.md''\<rparr>\<rparr>]"
  by (simp add: rows_a_def build_rows_def make_chunk_id_def str_nat.simps ustr_def)

lemma rows_b_eq:
  "rows_b =
    [\<lparr>rec_id = ustr ''b.md_0'', rec_document = ustr ''b'',
      rec_metadata = \<lparr>md_file_path = ustr ''b.md'', md_title = ustr ''b'', md_chunk_index = 0,
        md_start_pos = 0, md_end_pos = 0, md_is_title_chunk = True,
        md_full_path = ustr ''/v/b.md''\<rparr>\<rparr>,
     \<lparr>rec_id = ustr ''b.md_1'', rec_document = ustr ''hello world'',
      rec_metadata = \<lparr>md_file_path = ustr ''b.md'', md_title = ustr ''b'', md_chunk_index = 1,
        md_start_pos = 0, md_end_pos = 11, md_is_title_chunk = False,
        md_full_path = ustr ''/v/b.md''\<rparr>\<rparr>]"
  by (simp add: rows_b_def build_rows_def make_chunk_id_def str_nat.simps ustr_def)

lemma example_query:
  "vi_query example_index q 6 = Inr example_hits"
  by (simp add: example_index_def example_hits_def)

lemma example_file_scores:
  "collect_file_scores example_hits = [(ustr ''a.md'', 1/8), (ustr ''b.md'', 1/4)]"
  by (simp add: collect_file_scores_def example_hits_def hit_of_def rows_a_eq rows_b_eq
      score_step_def Let_def)
    (simp add: ustr_def)

lemma example_sorted_files:
  "sorted_files example_hits 2 = [(ustr ''a.md'', 1/8), (ustr ''b.md'', 1/4)]"
  by (simp add: sorted_files_def example_file_scores slice_to_def)

lemma example_articles:
  "collect_articles example_index [(ustr ''a.md'', 1/8), (ustr ''b.md'', 1/4)] =
     Inr [\<lparr>art_file_path = ustr ''a.md'', art_title = ustr ''a'', art_full_path = ustr ''/v/a.md'',
            art_content = ustr ''hello lo world'', art_relevance_score = 7/8\<rparr>,
          \<lparr>art_file_path = ustr ''b.md'', art_title = ustr ''b'', art_full_path = ustr ''/v/b.md'',
            art_content = ustr ''hello world'', art_relevance_score = 3/4\<rparr>]"
proof -
  have ne: "ustr ''b.md'' \<noteq> ustr ''a.md''" by (simp add: ustr_def)
  have ga: "vi_get example_index (ustr ''a.md'') = Inr (rev rows_a)"
    by (simp add: example_index_def)
  have gb: "vi_get example_index (ustr ''b.md'') = Inr rows_b"
    using ne by (simp add: example_index_def)
  have ra: "reconstruct (ustr ''a.md'') (1/8) (rev rows_a) =
      \<lparr>art_file_path = ustr ''a.md'', art_title = ustr ''a'', art_full_path = ustr ''/v/a.md'',
        art_content = ustr ''hello lo world'', art_relevance_score = 7/8\<rparr>"
    by (simp add: reconstruct_def rows_a_eq Let_def ustr_def)
  have rb: "reconstruct (ustr ''b.md'') (1/4) rows_b =
      \<lparr>art_file_path = ustr ''b.md'', art_title = ustr ''b'', art_full_path = ustr ''/v/b.md'',
        art_content = ustr ''hello world'', art_relevance_score = 3/4\<rparr>"
    by (simp add: reconstruct_def rows_b_eq Let_def ustr_def)
  have nea: "rows_a \<noteq> []" and neb: "rows_b \<noteq> []"
    by (simp_all add: rows_a_def rows_b_def build_rows_def)
  show ?thesis
    by (simp add: ga gb nea neb ra rb)
qed

lemma example_search_full:
  "search_full example_index (ustr ''hello world'') 2 =
     Inr [\<lparr>art_file_path = ustr ''a.md'', art_title = ustr ''a'', art_full_path = ustr ''/v/a.md'',
            art_content = ustr ''hello lo world'', art_relevance_score = 7/8\<rparr>,
          \<lparr>art_file_path = ustr ''b.md'', art_title = ustr ''b'', art_full_path = ustr ''/v/b.md'',
            art_content = ustr ''hello world'', art_relevance_score = 3/4\<rparr>]"
proof -
  have "example_hits \<noteq> []" by (simp add: example_hits_def)
  then show ?thesis
    by (simp add: search_full_def search_full_try_def except_return_empty_def example_query
        example_sorted_files example_articles del: collect_articles.simps)
qed

lemma example_search_full_articles:
  "search_full example_index (ustr ''hello world'') 2 = Inr [article_a, article_b]"
  by (simp add: example_search_full article_a_def article_b_def)

theorem search_full_ranked_witness:
  "search_full example_index (ustr ''hello world'') 2 = Inr [article_a, article_b]
   \<and> length [article_a, article_b] \<le> nat 2
   \<and> art_file_path article_a \<noteq> art_file_path article_b
   \<and> art_relevance_score article_a \<ge> art_relevance_score article_b
   \<and> Min (set (matched_distances example_hits (ustr ''a.md'')))
       \<le> Min (set (matched_distances example_hits (ustr ''b.md'')))"
proof -
  have l: "(0::int) \<le> 2" by simp
  from search_full_ranked [OF l example_search_full_articles] example_query [of "ustr ''hello world''"]
  have "length [article_a, article_b] \<le> nat 2
    \<and> distinct (map art_file_path [article_a, article_b])
    \<and> sorted_wrt (\<lambda>a b. art_relevance_score a \<ge> art_relevance_score b) [article_a, article_b]
    \<and> sorted (map (\<lambda>a. Min (set (matched_distances example_hits (art_file_path a))))
         [article_a, article_b])"
    by simp
  then show ?thesis
    using example_search_full_articles
    by (simp add: article_a_def article_b_def)
qed

lemma file_rows_a: "file_rows example_index (ustr ''a.md'') = rev rows_a"
  by (simp add: file_rows_def example_index_def)

theorem search_full_reconstruction_witness:
  "search_full example_index (ustr ''hello world'') 2 = Inr [article_a, article_b]
   \<and> length (filter (\<lambda>c. md_chunk_index (rec_metadata c) = 0) (rev rows_a)) = 1
   \<and> art_content article_a
       = concat (map rec_document
           (filter (\<lambda>c. md_chunk_index (rec_metadata c) \<noteq> 0)
              (sort_key (\<lambda>c. md_chunk_index (rec_metadata c)) (rev rows_a))))
   \<and> art_content article_a = ustr ''hello '' @ ustr ''lo world''
   \<and> matched_distances example_hits (ustr ''a.md'') = [1/2, 1/8]
   \<and> art_relevance_score article_a
       = 1 - Min (set (matched_distances example_hits (ustr ''a.md'')))"
proof -
  have p: "art_file_path article_a = ustr ''a.md''" by (simp add: article_a_def)
  have t: "length (filter (\<lambda>c. md_chunk_index (rec_metadata c) = 0) (rev rows_a)) = 1"
    by (simp add: rows_a_eq)
  have c: "art_content article_a = ustr ''hello '' @ ustr ''lo world''"
    by (simp add: article_a_def ustr_def)
  have m: "matched_distances example_hits (ustr ''a.md'') = [1/2, 1/8]"
    by (simp add: matched_distances_def example_hits_def hit_of_def rows_a_eq rows_b_eq)
      (simp add: ustr_def)
  have q: "vi_query example_index (ustr ''hello world'') (2 * 3) = Inr example_hits"
    using example_query [of "ustr ''hello world''"] by simp
  have a: "article_a \<in> set [article_a, article_b]" by simp
  from search_full_reconstruction [OF q example_search_full_articles a,
      unfolded p file_rows_a] t c m example_search_full_articles
  show ?thesis by blast
qed

theorem search_degrades_to_empty_witness:
  "search_snippets failing_index (ustr ''hello world'') 5 = Inr []
   \<and> search_full failing_index (ustr ''hello world'') 5 = Inr []
   \<and> search_full get_failing_index (ustr ''hello world'') 2 = Inr []"
proof -
  have q: "vi_query get_failing_index (ustr ''hello world'') (2 * 3) = Inr example_hits"
    using example_query [of "ustr ''hello world''"] by (simp add: get_failing_index_def)
  have m: "(ustr ''a.md'', 1/8) \<in> set (sorted_files example_hits 2)"
    by (simp add: example_sorted_files)
  have g: "vi_get get_failing_index (ustr ''a.md'') = Inl IndexError"
    by (simp add: get_failing_index_def)
  from search_degrades_to_empty [of failing_index "ustr ''hello world''" 5 IndexError]
    search_degrades_to_empty [of get_failing_index "ustr ''hello world''" 2 IndexError
      example_hits "ustr ''a.md''" "1/8"] q m g
  show ?thesis by (simp add: failing_index_def)
qed

end
